theory Spec2Isabelle
  imports Main
begin

section \<open>Python lists and grids\<close>

text \<open>
  A grid is a Python list of lists. Indexing a list with an index at or beyond its length
  (or below minus its length) raises \<^verbatim>\<open>IndexError\<close>; an index in \<open>[-len, 0)\<close> counts
  from the end. Every read of the source is modelled with \<open>getitem\<close>, so that an
  out-of-range read is a value \<open>Inl IndexError\<close> of the model.
\<close>

datatype error = IndexError

definition getitem :: "'a list \<Rightarrow> int \<Rightarrow> error + 'a" where
  "getitem xs i =
     (let n = int (length xs) in
      if 0 \<le> i \<and> i < n then Inr (xs ! nat i)
      else if - n \<le> i \<and> i < 0 then Inr (xs ! nat (n + i))
      else Inl IndexError)"

text \<open>\<^verbatim>\<open>matrix[r][c]\<close>: the row is read first, then the cell.\<close>

definition cell :: "'a list list \<Rightarrow> int \<Rightarrow> int \<Rightarrow> error + 'a" where
  "cell m r c = (case getitem m r of Inl e \<Rightarrow> Inl e | Inr row \<Rightarrow> getitem row c)"

text \<open>\<^verbatim>\<open>range(n)\<close> as a list.\<close>

definition py_range :: "int \<Rightarrow> int list" where
  "py_range n = [0..n - 1]"

text \<open>
  A list comprehension or a loop with a condition that may raise: the elements are tested
  from left to right and the first error ends the evaluation.
\<close>

fun filterE :: "('a \<Rightarrow> error + bool) \<Rightarrow> 'a list \<Rightarrow> error + 'a list" where
  "filterE p [] = Inr []"
| "filterE p (x # xs) =
     (case p x of
        Inl e \<Rightarrow> Inl e
      | Inr b \<Rightarrow> (case filterE p xs of
                    Inl e \<Rightarrow> Inl e
                  | Inr ys \<Rightarrow> Inr (if b then x # ys else ys)))"

text \<open>
  The grids of the specification: at least one row, and every row as long as the first.
\<close>

definition rectangular :: "'a list list \<Rightarrow> bool" where
  "rectangular m \<longleftrightarrow> m \<noteq> [] \<and> (\<forall>row \<in> set m. length row = length (hd m))"

definition in_grid :: "'a list list \<Rightarrow> int \<times> int \<Rightarrow> bool" where
  "in_grid m p \<longleftrightarrow> 0 \<le> fst p \<and> fst p < int (length m) \<and> 0 \<le> snd p \<and> snd p < int (length (hd m))"

text \<open>The value of a cell of a rectangular grid at a coordinate inside it.\<close>

definition at :: "'a list list \<Rightarrow> int \<times> int \<Rightarrow> 'a" where
  "at m p = m ! nat (fst p) ! nat (snd p)"

section \<open>Strategy B: longest ascending path (find\_longest\_path.py)\<close>

text \<open>
  A cell holds a one-character string, modelled by its code point, which is what
  \<^verbatim>\<open>ord\<close> returns. \<open>MatrixPathProblem_init\<close> is the constructor: it reads
  \<^verbatim>\<open>len(matrix[0])\<close> and collects the start positions.
\<close>

record MatrixPathProblem =
  matrix :: "nat list list"
  start_char :: nat
  rows :: int
  cols :: int
  initial_positions :: "(int \<times> int) list"

definition find_start_positions ::
  "nat list list \<Rightarrow> nat \<Rightarrow> int \<Rightarrow> int \<Rightarrow> error + (int \<times> int) list" where
  "find_start_positions m ch nrows ncols =
     filterE (\<lambda>(r, c). case cell m r c of Inl e \<Rightarrow> Inl e | Inr v \<Rightarrow> Inr (v = ch))
       (List.product (py_range nrows) (py_range ncols))"

definition MatrixPathProblem_init :: "nat list list \<Rightarrow> nat \<Rightarrow> error + MatrixPathProblem" where
  "MatrixPathProblem_init m ch =
     (case getitem m 0 of
        Inl e \<Rightarrow> Inl e
      | Inr row0 \<Rightarrow>
          (case find_start_positions m ch (int (length m)) (int (length row0)) of
             Inl e \<Rightarrow> Inl e
           | Inr ps \<Rightarrow> Inr \<lparr>matrix = m, start_char = ch, rows = int (length m),
                             cols = int (length row0), initial_positions = ps\<rparr>))"

text \<open>
  \<^verbatim>\<open>MatrixPathProblem.actions\<close>: the offsets \<open>(dr, dc)\<close> of
  \<^verbatim>\<open>product([-1, 0, 1], repeat=2)\<close>, in that order, that are not \<open>(0, 0)\<close>, lead
  inside the grid and to a cell whose code point is one more than the current one.
  The conjunction is evaluated left to right, so the neighbour is read only after the
  bounds test, and before the current cell.
\<close>

definition mp_actions :: "MatrixPathProblem \<Rightarrow> int \<times> int \<Rightarrow> error + (int \<times> int) list" where
  "mp_actions P state =
     (case state of (r, c) \<Rightarrow>
        filterE (\<lambda>(dr, dc).
            if (dr \<noteq> 0 \<or> dc \<noteq> 0) \<and> 0 \<le> r + dr \<and> r + dr < rows P
               \<and> 0 \<le> c + dc \<and> c + dc < cols P
            then (case cell (matrix P) (r + dr) (c + dc) of
                    Inl e \<Rightarrow> Inl e
                  | Inr v \<Rightarrow> (case cell (matrix P) r c of
                                Inl e \<Rightarrow> Inl e
                              | Inr u \<Rightarrow> Inr (int v = int u + 1)))
            else Inr False)
          (List.product [-1, 0, 1] [-1, 0, 1]))"

definition mp_result :: "int \<times> int \<Rightarrow> int \<times> int \<Rightarrow> int \<times> int" where
  "mp_result state action =
     (case state of (r, c) \<Rightarrow> case action of (dr, dc) \<Rightarrow> (r + dr, c + dc))"

definition box :: "MatrixPathProblem \<Rightarrow> (int \<times> int) set" where
  "box P = {0..<rows P} \<times> {0..<cols P}"

lemma filterE_subset: "filterE p xs = Inr ys \<Longrightarrow> set ys \<subseteq> set xs"
  by (induction xs arbitrary: ys) (auto split: sum.splits if_splits)

lemma filterE_sat: "filterE p xs = Inr ys \<Longrightarrow> y \<in> set ys \<Longrightarrow> p y = Inr True"
  by (induction xs arbitrary: ys) (auto split: sum.splits if_splits)

lemma mp_actions_in_box:
  "mp_actions P s = Inr acts \<Longrightarrow> a \<in> set acts \<Longrightarrow> mp_result s a \<in> box P"
proof -
  obtain r c dr dc where s: "s = (r, c)" and a: "a = (dr, dc)"
    by (cases s, cases a) blast
  assume A: "mp_actions P s = Inr acts" and B: "a \<in> set acts"
  have "(if (dr \<noteq> 0 \<or> dc \<noteq> 0) \<and> 0 \<le> r + dr \<and> r + dr < rows P
               \<and> 0 \<le> c + dc \<and> c + dc < cols P
            then (case cell (matrix P) (r + dr) (c + dc) of
                    Inl e \<Rightarrow> Inl e
                  | Inr v \<Rightarrow> (case cell (matrix P) r c of
                                Inl e \<Rightarrow> Inl e
                              | Inr u \<Rightarrow> Inr (int v = int u + 1)))
            else Inr False) = Inr True"
    using filterE_sat [OF A [unfolded mp_actions_def s prod.case] B [unfolded a]] by simp
  then show ?thesis
    by (simp add: s a mp_result_def box_def split: if_splits)
qed

text \<open>
  \<^verbatim>\<open>recursive_dfs(node, visited)\<close>. Of the node only its state is read; the child of
  an action \<open>a\<close> is the node \<^verbatim>\<open>expand\<close> builds, with state \<open>mp_result s a\<close>. The
  set \<^verbatim>\<open>visited\<close> is one mutable object: a call adds its state on entry and removes
  it before it returns, so the caller finds the set as it left it, and the model passes
  the set by value. The loop over the children is a fold whose accumulator is
  \<^verbatim>\<open>max_length\<close>, or the error that ended the loop.
\<close>

function recursive_dfs ::
  "MatrixPathProblem \<Rightarrow> int \<times> int \<Rightarrow> (int \<times> int) set \<Rightarrow> error + nat" where
  "recursive_dfs P s visited =
     (case mp_actions P s of
        Inl e \<Rightarrow> Inl e
      | Inr acts \<Rightarrow>
          (case fold (\<lambda>a acc.
                   case acc of
                     Inl e \<Rightarrow> Inl e
                   | Inr max_length \<Rightarrow>
                       if mp_result s a \<notin> insert s visited
                       then (case recursive_dfs P (mp_result s a) (insert s visited) of
                               Inl e \<Rightarrow> Inl e
                             | Inr len \<Rightarrow> Inr (max max_length len))
                       else Inr max_length)
                 acts (Inr 0) of
             Inl e \<Rightarrow> Inl e
           | Inr max_length \<Rightarrow> Inr (1 + max_length)))"
  by pat_completeness auto
termination
proof (relation "measure (\<lambda>(P, s, visited). card (box P - insert s visited))")
  show "wf (measure (\<lambda>(P, s, visited). card (box P - insert s visited)))" by simp
next
  fix P s visited acts a
  assume "mp_actions P s = Inr acts" "a \<in> set acts" "mp_result s a \<notin> insert s visited"
  then have inb: "mp_result s a \<in> box P" by (auto dest: mp_actions_in_box)
  have fin: "finite (box P - insert s visited)" by (simp add: box_def)
  have "box P - insert (mp_result s a) (insert s visited) \<subset> box P - insert s visited"
    using inb \<open>mp_result s a \<notin> insert s visited\<close> by auto
  then have "card (box P - insert (mp_result s a) (insert s visited))
      < card (box P - insert s visited)"
    using fin by (rule psubset_card_mono[rotated])
  then show "((P, mp_result s a, insert s visited), (P, s, visited))
        \<in> measure (\<lambda>(P, s, visited). card (box P - insert s visited))" by simp
qed

declare recursive_dfs.simps [simp del]

text \<open>
  \<^verbatim>\<open>depth_first_search(problem)\<close> of find\_longest\_path.py: the maximum of
  \<^verbatim>\<open>recursive_dfs\<close> over the start positions, each with a fresh empty set.
\<close>

definition longest_path_search :: "MatrixPathProblem \<Rightarrow> error + nat" where
  "longest_path_search P =
     fold (\<lambda>start_state acc.
             case acc of
               Inl e \<Rightarrow> Inl e
             | Inr max_path_length \<Rightarrow>
                 (case recursive_dfs P start_state {} of
                    Inl e \<Rightarrow> Inl e
                  | Inr len \<Rightarrow> Inr (max max_path_length len)))
       (initial_positions P) (Inr 0)"

text \<open>The program of the main block: build the problem, then search.\<close>

definition find_longest_path :: "nat list list \<Rightarrow> nat \<Rightarrow> error + nat" where
  "find_longest_path m ch =
     (case MatrixPathProblem_init m ch of Inl e \<Rightarrow> Inl e | Inr P \<Rightarrow> longest_path_search P)"

section \<open>Strategy C: flood fill (flood\_fill.py)\<close>

text \<open>
  \<^verbatim>\<open>row[i] = v\<close> on a Python list, with the same index rules as a read.
  \<^verbatim>\<open>matrix[x][y] = v\<close> reads the row and stores into it; the rows of a grid are
  taken to be distinct list objects, so that the store changes one cell.
\<close>

definition setitem :: "'a list \<Rightarrow> int \<Rightarrow> 'a \<Rightarrow> error + 'a list" where
  "setitem xs i v =
     (let n = int (length xs) in
      if 0 \<le> i \<and> i < n then Inr (xs[nat i := v])
      else if - n \<le> i \<and> i < 0 then Inr (xs[nat (n + i) := v])
      else Inl IndexError)"

definition set_cell :: "'a list list \<Rightarrow> int \<Rightarrow> int \<Rightarrow> 'a \<Rightarrow> error + 'a list list" where
  "set_cell m x y v =
     (case getitem m x of
        Inl e \<Rightarrow> Inl e
      | Inr row \<Rightarrow> (case setitem row y v of Inl e \<Rightarrow> Inl e | Inr row' \<Rightarrow> setitem m x row'))"

text \<open>
  The object \<^verbatim>\<open>self\<close>: its field \<^verbatim>\<open>matrix\<close> (here \<open>ff_matrix\<close>) is the grid
  that \<^verbatim>\<open>fill\<close> mutates, so the methods take the object and return it updated.
\<close>

record 'a FloodFillProblem =
  ff_matrix :: "'a list list"
  start_node :: "int \<times> int"
  target_color :: 'a
  replacement_color :: 'a

definition is_valid :: "'a FloodFillProblem \<Rightarrow> int \<Rightarrow> int \<Rightarrow> error + bool" where
  "is_valid self x y =
     (case getitem (ff_matrix self) 0 of
        Inl e \<Rightarrow> Inl e
      | Inr row0 \<Rightarrow>
          if 0 \<le> x \<and> x < int (length (ff_matrix self)) \<and> 0 \<le> y \<and> y < int (length row0)
          then (case cell (ff_matrix self) x y of
                  Inl e \<Rightarrow> Inl e
                | Inr v \<Rightarrow> Inr (v = target_color self))
          else Inr False)"

text \<open>
  The inner function \<^verbatim>\<open>dfs(x, y)\<close> of \<^verbatim>\<open>fill\<close>. It recurses into the four
  neighbours in the order of the literal list \<^verbatim>\<open>[(-1, 0), (1, 0), (0, -1), (0, 1)]\<close>,
  each call working on the grid the previous one left. The recursion need not end, so the
  result is an option: \<open>None\<close> stands for a walk that never returns (in Python, one
  that ends only when the call stack is exhausted).
\<close>

partial_function (option) dfs ::
  "'a FloodFillProblem \<Rightarrow> int \<Rightarrow> int \<Rightarrow> (error + 'a FloodFillProblem) option" where
  "dfs self x y =
     (case is_valid self x y of
        Inl e \<Rightarrow> Some (Inl e)
      | Inr ok \<Rightarrow>
          if \<not> ok then Some (Inr self)
          else (case set_cell (ff_matrix self) x y (replacement_color self) of
                  Inl e \<Rightarrow> Some (Inl e)
                | Inr m \<Rightarrow>
                    Option.bind (dfs (self\<lparr>ff_matrix := m\<rparr>) (x + (-1)) (y + 0)) (\<lambda>r1.
                    case r1 of Inl e \<Rightarrow> Some (Inl e) | Inr self1 \<Rightarrow>
                    Option.bind (dfs self1 (x + 1) (y + 0)) (\<lambda>r2.
                    case r2 of Inl e \<Rightarrow> Some (Inl e) | Inr self2 \<Rightarrow>
                    Option.bind (dfs self2 (x + 0) (y + (-1))) (\<lambda>r3.
                    case r3 of Inl e \<Rightarrow> Some (Inl e) | Inr self3 \<Rightarrow>
                    dfs self3 (x + 0) (y + 1))))))"

text \<open>
  \<^verbatim>\<open>fill\<close>: the guard reads the start cell with no bounds test, then the walk runs.
  The value returned is \<^verbatim>\<open>self.matrix\<close>; the result pairs it with the object after
  the call.
\<close>

definition fill ::
  "'a FloodFillProblem \<Rightarrow> (error + 'a list list \<times> 'a FloodFillProblem) option" where
  "fill self =
     (case start_node self of (start_x, start_y) \<Rightarrow>
        (case cell (ff_matrix self) start_x start_y of
           Inl e \<Rightarrow> Some (Inl e)
         | Inr v \<Rightarrow>
             if v = replacement_color self then Some (Inr (ff_matrix self, self))
             else (case dfs self start_x start_y of
                     None \<Rightarrow> None
                   | Some (Inl e) \<Rightarrow> Some (Inl e)
                   | Some (Inr self') \<Rightarrow> Some (Inr (ff_matrix self', self')))))"

section \<open>Flood fill: the region and the invariant of the walk\<close>

text \<open>The grid with one cell replaced: what \<^verbatim>\<open>matrix[x][y] = v\<close> leaves when the
  coordinate is inside the grid.\<close>

definition upd :: "'a list list \<Rightarrow> int \<times> int \<Rightarrow> 'a \<Rightarrow> 'a list list" where
  "upd m p v = m[nat (fst p) := (m ! nat (fst p))[nat (snd p) := v]]"

text \<open>Two grids of the same dimensions, the second rectangular.\<close>

definition same_shape :: "'a list list \<Rightarrow> 'a list list \<Rightarrow> bool" where
  "same_shape m m' \<longleftrightarrow> rectangular m' \<and> length m' = length m \<and> length (hd m') = length (hd m)"

text \<open>The coordinates inside the grid whose cell holds the colour \<open>t\<close>.\<close>

definition targets :: "'a list list \<Rightarrow> 'a \<Rightarrow> (int \<times> int) set" where
  "targets m t = {q. in_grid m q \<and> at m q = t}"

text \<open>The four axis-aligned neighbours of a coordinate.\<close>

definition nbrs4 :: "int \<times> int \<Rightarrow> (int \<times> int) set" where
  "nbrs4 p = {(fst p - 1, snd p), (fst p + 1, snd p), (fst p, snd p - 1), (fst p, snd p + 1)}"

text \<open>
  The cells reachable from \<open>p\<close> by a 4-connected path that stays in \<open>S\<close>, the
  start included: with \<open>S\<close> the cells that hold the target colour, the region that the
  specification says is recoloured.
\<close>

inductive_set region :: "(int \<times> int) set \<Rightarrow> int \<times> int \<Rightarrow> (int \<times> int) set"
  for S :: "(int \<times> int) set" and p :: "int \<times> int" where
  start: "p \<in> S \<Longrightarrow> p \<in> region S p"
| step: "q \<in> region S p \<Longrightarrow> q' \<in> nbrs4 q \<Longrightarrow> q' \<in> S \<Longrightarrow> q' \<in> region S p"

text \<open>
  \<open>m'\<close> comes from \<open>m\<close> by recolouring some cells from \<open>t\<close> to \<open>r\<close>, all other
  cells as they were.
\<close>

definition recolors :: "'a \<Rightarrow> 'a \<Rightarrow> 'a list list \<Rightarrow> 'a list list \<Rightarrow> bool" where
  "recolors t r m m' \<longleftrightarrow>
     same_shape m m' \<and> (\<forall>q. in_grid m q \<longrightarrow> at m' q = at m q \<or> (at m q = t \<and> at m' q = r))"

text \<open>
  What a call of \<^verbatim>\<open>dfs\<close> from the coordinates \<open>N\<close> has done when it returns with
  the object \<open>self'\<close>: only the grid changed, by recolouring; no coordinate of \<open>N\<close>
  holds the target colour any more; no recoloured cell has a neighbour that still holds
  it; and every recoloured cell was reachable from \<open>N\<close>.
\<close>

definition walked ::
  "'a FloodFillProblem \<Rightarrow> (int \<times> int) set \<Rightarrow> 'a FloodFillProblem \<Rightarrow> bool" where
  "walked self N self' \<longleftrightarrow>
     self' = self\<lparr>ff_matrix := ff_matrix self'\<rparr> \<and>
     recolors (target_color self) (replacement_color self) (ff_matrix self) (ff_matrix self') \<and>
     N \<inter> targets (ff_matrix self') (target_color self) = {} \<and>
     (\<forall>q \<in> targets (ff_matrix self) (target_color self) - targets (ff_matrix self') (target_color self).
        nbrs4 q \<inter> targets (ff_matrix self') (target_color self) = {}) \<and>
     targets (ff_matrix self) (target_color self) - targets (ff_matrix self') (target_color self)
       \<subseteq> (\<Union>n \<in> N. region (targets (ff_matrix self) (target_color self)) n)"

text \<open>A cell of the target colour with a neighbour of the target colour.\<close>

definition paired :: "'a FloodFillProblem \<Rightarrow> int \<times> int \<Rightarrow> bool" where
  "paired self p \<longleftrightarrow>
     p \<in> targets (ff_matrix self) (target_color self) \<and>
     (\<exists>q \<in> nbrs4 p. q \<in> targets (ff_matrix self) (target_color self))"

section \<open>Flood fill: two small problems\<close>

text \<open>
  A grid of two cells of different colours, filled from the first; and a grid of two cells
  of one colour, with the replacement colour equal to the target colour.
\<close>

definition two_cells :: "char list list" where
  "two_cells = [[CHR ''X'', CHR ''Y'']]"

definition two_cells_problem :: "char FloodFillProblem" where
  "two_cells_problem =
     \<lparr>ff_matrix = two_cells, start_node = (0, 0), target_color = CHR ''X'',
      replacement_color = CHR ''C''\<rparr>"

definition twin_problem :: "char FloodFillProblem" where
  "twin_problem =
     \<lparr>ff_matrix = [[CHR ''X'', CHR ''X'']], start_node = (0, 0), target_color = CHR ''X'',
      replacement_color = CHR ''X''\<rparr>"

section \<open>Strategy A: single-result depth-first search (DFS.py)\<close>

text \<open>
  The class \<^verbatim>\<open>Problem\<close>: states and actions are opaque values, the methods are
  functions of the problem. Costs are integers. A search node holds its state, its
  parent (\<^verbatim>\<open>None\<close> for a root), the action that produced it and the cost of the
  path to it.
\<close>

record ('s, 'a) Problem =
  initial :: 's
  actions :: "'s \<Rightarrow> 'a list"
  result :: "'s \<Rightarrow> 'a \<Rightarrow> 's"
  action_cost :: "'s \<Rightarrow> 'a \<Rightarrow> 's \<Rightarrow> int"
  is_goal :: "'s \<Rightarrow> bool"

datatype ('s, 'a) Node =
  Node (state: 's) (parent: "('s, 'a) Node option") (action: "'a option") (path_cost: int)

text \<open>
  \<^verbatim>\<open>expand\<close> yields one child for each action, in the order of \<^verbatim>\<open>actions\<close>.
\<close>

definition expand :: "('s, 'a) Problem \<Rightarrow> ('s, 'a) Node \<Rightarrow> ('s, 'a) Node list" where
  "expand problem node =
     (let s = state node in
      map (\<lambda>act.
             let s1 = result problem s act;
                 cost = path_cost node + action_cost problem s act s1
             in Node s1 (Some node) (Some act) cost)
        (actions problem s))"

text \<open>
  \<^verbatim>\<open>path_states\<close>: the states from the root to the node. The sentinel nodes
  \<^verbatim>\<open>failure\<close> and \<^verbatim>\<open>cutoff\<close> are compared by identity and are never built by
  \<^verbatim>\<open>expand\<close>, so on the nodes of a search the recursion ends at \<^verbatim>\<open>None\<close>.
\<close>

fun path_states :: "('s, 'a) Node option \<Rightarrow> 's list" where
  "path_states None = []"
| "path_states (Some (Node s p a c)) = path_states p @ [s]"

text \<open>
  The cost returned by the search: a path cost, or \<^verbatim>\<open>math.inf\<close>.
\<close>

datatype ecost = Fin int | PosInf

text \<open>
  One iteration of the loop of \<^verbatim>\<open>depth_first_search\<close>, on a frontier that is not
  empty: \<^verbatim>\<open>frontier.pop()\<close> takes the last element of the list and
  \<^verbatim>\<open>frontier.append\<close> adds at the end. The iteration either returns (\<open>Inl\<close>) or
  leaves a new frontier and set of explored states (\<open>Inr\<close>).
\<close>

definition dfs_step ::
  "('s, 'a) Problem \<Rightarrow> ('s, 'a) Node list \<times> 's set
     \<Rightarrow> ('s list option \<times> ecost) + (('s, 'a) Node list \<times> 's set)" where
  "dfs_step problem c =
     (case c of (frontier, explored) \<Rightarrow>
        let node = last frontier; frontier = butlast frontier in
        if state node \<in> explored then Inr (frontier, explored)
        else
          let explored = insert (state node) explored in
          if is_goal problem (state node)
          then Inl (Some (path_states (Some node)), Fin (path_cost node))
          else Inr (frontier @ expand problem node, explored))"

text \<open>
  The loop \<^verbatim>\<open>while frontier\<close>. It need not end (a problem can have infinitely many
  states), so the result is an option and \<open>None\<close> stands for a search that runs forever.
\<close>

partial_function (option) dfs_loop ::
  "('s, 'a) Problem \<Rightarrow> ('s, 'a) Node list \<times> 's set \<Rightarrow> ('s list option \<times> ecost) option" where
  "dfs_loop problem c =
     (if fst c = [] then Some (None, PosInf)
      else (case dfs_step problem c of
              Inl r \<Rightarrow> Some r
            | Inr c' \<Rightarrow> dfs_loop problem c'))"

definition depth_first_search ::
  "('s, 'a) Problem \<Rightarrow> ('s list option \<times> ecost) option" where
  "depth_first_search problem = dfs_loop problem ([Node (initial problem) None None 0], {})"

text \<open>
  The first \<open>n\<close> iterations of the loop, from a frontier and a set of explored states:
  the value returned if the loop has returned by then, the frontier and the set otherwise.
\<close>

fun iterations ::
  "nat \<Rightarrow> ('s, 'a) Problem \<Rightarrow> ('s, 'a) Node list \<times> 's set
     \<Rightarrow> ('s list option \<times> ecost) + (('s, 'a) Node list \<times> 's set)" where
  "iterations 0 problem c = Inr c"
| "iterations (Suc n) problem c =
     (if fst c = [] then Inl (None, PosInf)
      else (case dfs_step problem c of
              Inl r \<Rightarrow> Inl r
            | Inr c' \<Rightarrow> iterations n problem c'))"

text \<open>
  A path of the problem: consecutive states joined by the listed actions, each action
  among the actions of its state; and the sum of the action costs along it.
\<close>

fun path_of :: "('s, 'a) Problem \<Rightarrow> 's list \<Rightarrow> 'a list \<Rightarrow> bool" where
  "path_of problem [s] [] = True"
| "path_of problem (s # s' # ss) (a # as) =
     (a \<in> set (actions problem s) \<and> result problem s a = s' \<and> path_of problem (s' # ss) as)"
| "path_of problem _ _ = False"

fun cost_along :: "('s, 'a) Problem \<Rightarrow> 's list \<Rightarrow> 'a list \<Rightarrow> int" where
  "cost_along problem (s # s' # ss) (a # as) =
     action_cost problem s a s' + cost_along problem (s' # ss) as"
| "cost_along problem _ _ = 0"

text \<open>The states that can be reached from the initial state.\<close>

inductive_set reachable :: "('s, 'a) Problem \<Rightarrow> 's set" for problem :: "('s, 'a) Problem" where
  init: "initial problem \<in> reachable problem"
| step: "s \<in> reachable problem \<Longrightarrow> a \<in> set (actions problem s)
         \<Longrightarrow> result problem s a \<in> reachable problem"

text \<open>
  A small problem with the defaults of the class \<^verbatim>\<open>Problem\<close> (every action costs 1,
  the goal test is equality with the goal): states are numbers, an action is the state it
  leads to, and the edges are \<open>0 \<rightarrow> 1\<close>, \<open>0 \<rightarrow> 2\<close>, \<open>2 \<rightarrow> 3\<close>.
\<close>

definition small_graph :: "nat \<Rightarrow> (nat, nat) Problem" where
  "small_graph goal =
     \<lparr>initial = 0,
      actions = (\<lambda>s. if s = 0 then [1, 2] else if s = 2 then [3] else []),
      result = (\<lambda>s a. a),
      action_cost = (\<lambda>s a s1. 1),
      is_goal = (\<lambda>s. s = goal)\<rparr>"

text \<open>
  The nodes a search can build: the root, and the children that \<^verbatim>\<open>expand\<close> makes of
  such a node.
\<close>

inductive valid_node :: "('s, 'a) Problem \<Rightarrow> ('s, 'a) Node \<Rightarrow> bool"
  for problem :: "('s, 'a) Problem" where
  root: "valid_node problem (Node (initial problem) None None 0)"
| child: "valid_node problem n \<Longrightarrow> a \<in> set (actions problem (state n)) \<Longrightarrow>
     valid_node problem
       (Node (result problem (state n) a) (Some n) (Some a)
          (path_cost n + action_cost problem (state n) a (result problem (state n) a)))"

text \<open>The nodes the search builds on the small problem.\<close>

definition n0 :: "(nat, nat) Node" where "n0 = Node 0 None None 0"
definition n1 :: "(nat, nat) Node" where "n1 = Node 1 (Some n0) (Some 1) 1"
definition n2 :: "(nat, nat) Node" where "n2 = Node 2 (Some n0) (Some 2) 1"
definition n3 :: "(nat, nat) Node" where "n3 = Node 3 (Some n2) (Some 3) 2"

section \<open>Longest ascending path: the paths of the specification\<close>

text \<open>
  A step of an ascending path: to one of the eight neighbours, inside the grid, whose code
  point is one more than the current one.
\<close>

definition ascending_step :: "nat list list \<Rightarrow> int \<times> int \<Rightarrow> int \<times> int \<Rightarrow> bool" where
  "ascending_step m p q \<longleftrightarrow>
     in_grid m q \<and> q \<noteq> p \<and> \<bar>fst q - fst p\<bar> \<le> 1 \<and> \<bar>snd q - snd p\<bar> \<le> 1
     \<and> int (at m q) = int (at m p) + 1"

text \<open>
  An ascending path: a sequence of cells of the grid, not empty, each step ascending. It
  is simple when its cells are distinct.
\<close>

fun ascending_path :: "nat list list \<Rightarrow> (int \<times> int) list \<Rightarrow> bool" where
  "ascending_path m [] = False"
| "ascending_path m [p] = in_grid m p"
| "ascending_path m (p # q # ps) = (in_grid m p \<and> ascending_step m p q \<and> ascending_path m (q # ps))"

text \<open>
  A problem as the constructor builds it from a rectangular grid; and the ways to go on
  from the cell \<open>s\<close> by an ascending path that meets neither \<open>s\<close> nor the set \<open>V\<close>:
  what \<^verbatim>\<open>recursive_dfs\<close> explores from \<open>s\<close> with the visited set \<open>V\<close>.
\<close>

definition well_formed :: "MatrixPathProblem \<Rightarrow> bool" where
  "well_formed P \<longleftrightarrow>
     rectangular (matrix P) \<and> rows P = int (length (matrix P))
     \<and> cols P = int (length (hd (matrix P)))"

definition extends :: "MatrixPathProblem \<Rightarrow> int \<times> int \<Rightarrow> (int \<times> int) set \<Rightarrow> (int \<times> int) list \<Rightarrow> bool" where
  "extends P s V rest \<longleftrightarrow>
     ascending_path (matrix P) (s # rest) \<and> distinct rest \<and> set rest \<inter> insert s V = {}"

section \<open>Strategy D: word search (word\_matrix.py)\<close>

text \<open>
  A word is a string, a list of characters, and a cell of the board holds one character.
  \<^verbatim>\<open>is_valid_move\<close> tests the bounds and that the coordinate is not yet on the path.
\<close>

definition is_valid_move :: "int \<Rightarrow> int \<Rightarrow> int \<Rightarrow> int \<Rightarrow> (int \<times> int) list \<Rightarrow> bool" where
  "is_valid_move nx ny nrows ncols path \<longleftrightarrow>
     0 \<le> nx \<and> nx < nrows \<and> 0 \<le> ny \<and> ny < ncols \<and> (nx, ny) \<notin> set path"

record 'a MatrixWordSearchProblem =
  board :: "'a list list"
  dictionary :: "'a list set"
  ws_rows :: int
  ws_cols :: int
  prefixes :: "'a list set"

text \<open>
  \<^verbatim>\<open>_build_prefix_set\<close>: for every word, the slices \<^verbatim>\<open>word[:i + 1]\<close> for
  \<open>i\<close> in \<^verbatim>\<open>range(len(word))\<close>.
\<close>

definition build_prefix_set :: "'a list list \<Rightarrow> 'a list set" where
  "build_prefix_set words =
     fold (\<lambda>word acc. fold (\<lambda>i acc. insert (take (i + 1) word) acc) [0..<length word] acc)
       words {}"

text \<open>
  The constructor: \<^verbatim>\<open>cols\<close> is \<^verbatim>\<open>len(board[0])\<close> when there is a row, and 0
  otherwise.
\<close>

definition MatrixWordSearchProblem_init ::
  "'a list list \<Rightarrow> 'a list list \<Rightarrow> error + 'a MatrixWordSearchProblem" where
  "MatrixWordSearchProblem_init b words =
     (let nrows = int (length b) in
      case (if nrows > 0
            then (case getitem b 0 of Inl e \<Rightarrow> Inl e | Inr row0 \<Rightarrow> Inr (int (length row0)))
            else Inr 0) of
        Inl e \<Rightarrow> Inl e
      | Inr ncols \<Rightarrow>
          Inr \<lparr>board = b, dictionary = set words, ws_rows = nrows, ws_cols = ncols,
               prefixes = build_prefix_set words\<rparr>)"

text \<open>
  A search state is the tuple \<^verbatim>\<open>(x, y, path)\<close>. \<^verbatim>\<open>actions\<close> yields the neighbours
  in the order of its list of eight directions; \<^verbatim>\<open>result\<close> extends the path.
\<close>

definition directions :: "(int \<times> int) list" where
  "directions = [(-1, -1), (-1, 0), (-1, 1), (0, -1), (0, 1), (1, -1), (1, 0), (1, 1)]"

definition ws_actions ::
  "'a MatrixWordSearchProblem \<Rightarrow> int \<times> int \<times> (int \<times> int) list \<Rightarrow> (int \<times> int) list" where
  "ws_actions P st =
     (case st of (x, y, path) \<Rightarrow>
        map (\<lambda>(dx, dy). (x + dx, y + dy))
          (filter (\<lambda>(dx, dy). is_valid_move (x + dx) (y + dy) (ws_rows P) (ws_cols P) path)
             directions))"

definition ws_result ::
  "int \<times> int \<times> (int \<times> int) list \<Rightarrow> int \<times> int \<Rightarrow> int \<times> int \<times> (int \<times> int) list" where
  "ws_result st act =
     (case st of (x, y, path) \<Rightarrow> case act of (nx, ny) \<Rightarrow> (nx, ny, path @ [(nx, ny)]))"

text \<open>
  \<^verbatim>\<open>"".join(self.board[i][j] for i, j in path)\<close>: the cells are read in the order of
  the path, and the first read out of range ends the evaluation.
\<close>

fun word_of :: "'a list list \<Rightarrow> (int \<times> int) list \<Rightarrow> error + 'a list" where
  "word_of b [] = Inr []"
| "word_of b (p # ps) =
     (case cell b (fst p) (snd p) of
        Inl e \<Rightarrow> Inl e
      | Inr ch \<Rightarrow> (case word_of b ps of Inl e \<Rightarrow> Inl e | Inr w \<Rightarrow> Inr (ch # w)))"

text \<open>
  One iteration of the loop of \<^verbatim>\<open>find_words_from\<close>, on a stack that is not empty:
  pop the last state, test its word against the dictionary and the prefixes, and push the
  states of its actions.
\<close>

definition ws_step ::
  "'a MatrixWordSearchProblem \<Rightarrow> (int \<times> int \<times> (int \<times> int) list) list \<times> 'a list set
     \<Rightarrow> error + ((int \<times> int \<times> (int \<times> int) list) list \<times> 'a list set)" where
  "ws_step P c =
     (case c of (stack, found_words) \<Rightarrow>
        let st = last stack; stack = butlast stack in
        case word_of (board P) (snd (snd st)) of
          Inl e \<Rightarrow> Inl e
        | Inr word \<Rightarrow>
            let found_words = (if word \<in> dictionary P then insert word found_words
                               else found_words);
                stack = (if word \<in> prefixes P
                         then stack @ map (ws_result st) (ws_actions P st)
                         else stack)
            in Inr (stack, found_words))"

text \<open>
  The loop \<^verbatim>\<open>while stack\<close>; \<open>None\<close> stands for a loop that does not end.
\<close>

partial_function (option) ws_loop ::
  "'a MatrixWordSearchProblem \<Rightarrow> (int \<times> int \<times> (int \<times> int) list) list \<times> 'a list set
     \<Rightarrow> (error + 'a list set) option" where
  "ws_loop P c =
     (if fst c = [] then Some (Inr (snd c))
      else (case ws_step P c of
              Inl e \<Rightarrow> Some (Inl e)
            | Inr c' \<Rightarrow> ws_loop P c'))"

definition find_words_from ::
  "'a MatrixWordSearchProblem \<Rightarrow> int \<Rightarrow> int \<Rightarrow> (error + 'a list set) option" where
  "find_words_from P x y = ws_loop P ([(x, y, [(x, y)])], {})"

text \<open>
  \<^verbatim>\<open>find_all_words\<close>: the union of the words found from every coordinate of
  \<^verbatim>\<open>product(range(rows), range(cols))\<close>.
\<close>

definition find_all_words :: "'a MatrixWordSearchProblem \<Rightarrow> (error + 'a list set) option" where
  "find_all_words P =
     fold (\<lambda>(x, y) acc.
             case acc of
               None \<Rightarrow> None
             | Some (Inl e) \<Rightarrow> Some (Inl e)
             | Some (Inr found_words) \<Rightarrow>
                 (case find_words_from P x y of
                    None \<Rightarrow> None
                  | Some (Inl e) \<Rightarrow> Some (Inl e)
                  | Some (Inr ws) \<Rightarrow> Some (Inr (found_words \<union> ws))))
       (List.product (py_range (ws_rows P)) (py_range (ws_cols P))) (Some (Inr {}))"

text \<open>The program of the main block: build the problem, then search.\<close>

definition word_search :: "'a list list \<Rightarrow> 'a list list \<Rightarrow> (error + 'a list set) option" where
  "word_search b words =
     (case MatrixWordSearchProblem_init b words of
        Inl e \<Rightarrow> Some (Inl e)
      | Inr P \<Rightarrow> find_all_words P)"

section \<open>Word search: the words of the specification\<close>

text \<open>
  Two coordinates are neighbours in one of the eight directions; a path of the grid is a
  sequence of its cells, not empty, each a neighbour of the one before; the word of a
  path is the sequence of its letters.
\<close>

definition adjacent8 :: "int \<times> int \<Rightarrow> int \<times> int \<Rightarrow> bool" where
  "adjacent8 p q \<longleftrightarrow> q \<noteq> p \<and> \<bar>fst q - fst p\<bar> \<le> 1 \<and> \<bar>snd q - snd p\<bar> \<le> 1"

fun grid_path :: "'a list list \<Rightarrow> (int \<times> int) list \<Rightarrow> bool" where
  "grid_path b [] = False"
| "grid_path b [p] = in_grid b p"
| "grid_path b (p # q # ps) = (in_grid b p \<and> adjacent8 p q \<and> grid_path b (q # ps))"

definition traceable :: "'a list list \<Rightarrow> 'a list \<Rightarrow> bool" where
  "traceable b w \<longleftrightarrow> (\<exists>path. grid_path b path \<and> distinct path \<and> map (at b) path = w)"

text \<open>
  A problem as the constructor builds it from a rectangular board; the words the loop of
  \<^verbatim>\<open>find_words_from\<close> collects below a state with the path \<open>path\<close> (the word of the
  path when it is in the dictionary, and the words collected below the states pushed when
  the word is a prefix); and the states that occur on the stack.
\<close>

definition ws_well_formed :: "'a MatrixWordSearchProblem \<Rightarrow> bool" where
  "ws_well_formed P \<longleftrightarrow>
     rectangular (board P) \<and> ws_rows P = int (length (board P))
     \<and> ws_cols P = int (length (hd (board P)))"

inductive finds :: "'a MatrixWordSearchProblem \<Rightarrow> (int \<times> int) list \<Rightarrow> 'a list \<Rightarrow> bool"
  for P :: "'a MatrixWordSearchProblem" where
  here: "map (at (board P)) path \<in> dictionary P \<Longrightarrow> finds P path (map (at (board P)) path)"
| deeper: "map (at (board P)) path \<in> prefixes P \<Longrightarrow> in_grid (board P) q \<Longrightarrow>
     adjacent8 (last path) q \<Longrightarrow> q \<notin> set path \<Longrightarrow> finds P (path @ [q]) w \<Longrightarrow> finds P path w"

definition on_board :: "'a MatrixWordSearchProblem \<Rightarrow> int \<times> int \<times> (int \<times> int) list \<Rightarrow> bool" where
  "on_board P st \<longleftrightarrow>
     (case st of (x, y, path) \<Rightarrow>
        path \<noteq> [] \<and> last path = (x, y) \<and> distinct path \<and> (\<forall>p \<in> set path. in_grid (board P) p))"

text \<open>A board of two rows, \<^verbatim>\<open>["ca", "tb"]\<close>.\<close>

definition small_board :: "char list list" where
  "small_board = [''ca'', ''tb'']"

(*MODELS-END*)

section \<open>Evaluation of the longest-path search\<close>

text \<open>
  One iteration of the loop of \<^verbatim>\<open>recursive_dfs\<close>, named so that the function can be
  unfolded one call at a time.
\<close>

definition visit_child ::
  "MatrixPathProblem \<Rightarrow> int \<times> int \<Rightarrow> (int \<times> int) set \<Rightarrow> int \<times> int \<Rightarrow> error + nat \<Rightarrow> error + nat" where
  "visit_child P s visited a acc =
     (case acc of
        Inl e \<Rightarrow> Inl e
      | Inr max_length \<Rightarrow>
          if mp_result s a \<notin> insert s visited
          then (case recursive_dfs P (mp_result s a) (insert s visited) of
                  Inl e \<Rightarrow> Inl e
                | Inr len \<Rightarrow> Inr (max max_length len))
          else Inr max_length)"

lemma recursive_dfs_unfold:
  "recursive_dfs P s visited =
     (case mp_actions P s of
        Inl e \<Rightarrow> Inl e
      | Inr acts \<Rightarrow>
          (case fold (visit_child P s visited) acts (Inr 0) of
             Inl e \<Rightarrow> Inl e
           | Inr max_length \<Rightarrow> Inr (1 + max_length)))"
  unfolding visit_child_def by (rule recursive_dfs.simps)

text \<open>The grid of the concrete scenario: \<^verbatim>\<open>[["A","B"],["D","C"]]\<close>.\<close>

definition scenario_grid :: "nat list list" where
  "scenario_grid =
     [[of_char CHR ''A'', of_char CHR ''B''], [of_char CHR ''D'', of_char CHR ''C'']]"

lemma scenario_problem:
  "MatrixPathProblem_init scenario_grid (of_char CHR ''A'') =
     Inr \<lparr>matrix = scenario_grid, start_char = 65, rows = 2, cols = 2,
          initial_positions = [(0, 0)]\<rparr>"
  by (simp add: MatrixPathProblem_init_def scenario_grid_def getitem_def
      find_start_positions_def py_range_def cell_def upto.simps)

section \<open>Claim C1: the 2x2 scenario\<close>

text \<open>
  C1 (as stated): on the grid \<^verbatim>\<open>[["A","B"],["D","C"]]\<close> with start character
  \<^verbatim>\<open>"A"\<close> the search returns 3. It does not: \<^verbatim>\<open>"D"\<close> at \<open>(1,0)\<close> is a
  neighbour of \<^verbatim>\<open>"C"\<close> at \<open>(1,1)\<close> and is one code point above it, so the chain
  A, B, C goes on to D.
\<close>

theorem scenario_length_is_not_3:
  "find_longest_path scenario_grid (of_char CHR ''A'') \<noteq> Inr 3"
  unfolding find_longest_path_def scenario_problem
  by (simp add: longest_path_search_def recursive_dfs_unfold visit_child_def mp_actions_def
      mp_result_def cell_def getitem_def scenario_grid_def)

text \<open>
  C1 (amended): on the grid \<^verbatim>\<open>[["A","B"],["D","C"]]\<close> with start character
  \<^verbatim>\<open>"A"\<close> the backtracking longest-path search returns 4, the length of the chain
  A at \<open>(0,0)\<close>, B at \<open>(0,1)\<close>, C at \<open>(1,1)\<close>, D at \<open>(1,0)\<close>.
\<close>

theorem scenario_length_is_4:
  "find_longest_path scenario_grid (of_char CHR ''A'') = Inr 4"
  unfolding find_longest_path_def scenario_problem
  by (simp add: longest_path_search_def recursive_dfs_unfold visit_child_def mp_actions_def
      mp_result_def cell_def getitem_def scenario_grid_def)

section \<open>Flood fill: reads and writes inside a rectangular grid\<close>

lemma getitem_in: "0 \<le> i \<Longrightarrow> i < int (length xs) \<Longrightarrow> getitem xs i = Inr (xs ! nat i)"
  by (simp add: getitem_def)

lemma rectangular_row: "rectangular m \<Longrightarrow> i < length m \<Longrightarrow> length (m ! i) = length (hd m)"
  unfolding rectangular_def using nth_mem by blast

lemma getitem_row0: "rectangular m \<Longrightarrow> getitem m 0 = Inr (hd m)"
  by (cases m) (simp_all add: rectangular_def getitem_def)

lemma cell_in:
  assumes "rectangular m" "in_grid m p"
  shows "cell m (fst p) (snd p) = Inr (at m p)"
proof -
  have r: "0 \<le> fst p" "fst p < int (length m)" and c: "0 \<le> snd p" "snd p < int (length (hd m))"
    using assms(2) by (simp_all add: in_grid_def)
  have "nat (fst p) < length m" using r by simp
  then have len: "length (m ! nat (fst p)) = length (hd m)"
    using assms(1) by (rule rectangular_row [rotated])
  show ?thesis
    using r c by (simp add: cell_def at_def getitem_in len)
qed

lemma is_valid_rect:
  assumes "rectangular (ff_matrix self)"
  shows "is_valid self x y = Inr ((x, y) \<in> targets (ff_matrix self) (target_color self))"
proof (cases "in_grid (ff_matrix self) (x, y)")
  case True
  then show ?thesis
    using cell_in [OF assms True]
    by (simp add: is_valid_def getitem_row0 [OF assms] targets_def in_grid_def)
next
  case False
  then show ?thesis
    by (auto simp add: is_valid_def getitem_row0 [OF assms] targets_def in_grid_def)
qed

lemma set_cell_rect:
  assumes "rectangular m" "in_grid m p"
  shows "set_cell m (fst p) (snd p) v = Inr (upd m p v)"
proof -
  have r: "0 \<le> fst p" "fst p < int (length m)" and c: "0 \<le> snd p" "snd p < int (length (hd m))"
    using assms(2) by (simp_all add: in_grid_def)
  have "nat (fst p) < length m" using r by simp
  then have len: "length (m ! nat (fst p)) = length (hd m)"
    using assms(1) by (rule rectangular_row [rotated])
  show ?thesis
    using r c by (simp add: set_cell_def setitem_def upd_def getitem_in len)
qed

lemma length_upd: "length (upd m p v) = length m"
  by (simp add: upd_def)

lemma row_length_upd: "i < length m \<Longrightarrow> length (upd m p v ! i) = length (m ! i)"
  by (cases "i = nat (fst p)") (simp_all add: upd_def)

lemma same_shape_upd:
  assumes "rectangular m"
  shows "same_shape m (upd m p v)"
proof -
  have ne: "m \<noteq> []" using assms by (simp add: rectangular_def)
  then have hd0: "hd (upd m p v) = upd m p v ! 0" "hd m = m ! 0"
    by (simp_all add: hd_conv_nth upd_def)
  have l0: "length (hd (upd m p v)) = length (hd m)"
    using ne unfolding hd0 by (simp add: row_length_upd)
  have "length row = length (hd (upd m p v))" if "row \<in> set (upd m p v)" for row
  proof -
    from that obtain i where i: "i < length m" and row: "row = upd m p v ! i"
      by (auto simp: in_set_conv_nth length_upd)
    show ?thesis
      unfolding l0 row using i by (simp add: row_length_upd rectangular_row [OF assms])
  qed
  moreover have "upd m p v \<noteq> []"
    using ne by (simp add: upd_def)
  ultimately have "rectangular (upd m p v)"
    unfolding rectangular_def by blast
  then show ?thesis
    using l0 by (simp add: same_shape_def length_upd)
qed

lemma same_shape_refl: "rectangular m \<Longrightarrow> same_shape m m"
  by (simp add: same_shape_def)

lemma same_shape_trans: "same_shape m m' \<Longrightarrow> same_shape m' m'' \<Longrightarrow> same_shape m m''"
  by (simp add: same_shape_def)

lemma in_grid_shape: "same_shape m m' \<Longrightarrow> in_grid m' q = in_grid m q"
  by (simp add: same_shape_def in_grid_def)

lemma at_upd:
  assumes "rectangular m" "in_grid m p" "in_grid m q"
  shows "at (upd m p v) q = (if q = p then v else at m q)"
proof -
  have p1: "nat (fst p) < length m"
    using assms(2) unfolding in_grid_def by linarith
  have p2: "nat (snd p) < length (m ! nat (fst p))"
    using assms(2) unfolding rectangular_row [OF assms(1) p1] in_grid_def by linarith
  note p = p1 p2
  have q: "0 \<le> fst q" "0 \<le> snd q" "0 \<le> fst p" "0 \<le> snd p"
    using assms(2,3) by (simp_all add: in_grid_def)
  have eq: "q = p \<longleftrightarrow> nat (fst q) = nat (fst p) \<and> nat (snd q) = nat (snd p)"
    using q by (auto simp: prod_eq_iff)
  show ?thesis
    unfolding eq using p by (simp add: at_def upd_def nth_list_update)
qed

lemma finite_targets: "finite (targets m t)"
proof -
  have "targets m t \<subseteq> {0..<int (length m)} \<times> {0..<int (length (hd m))}"
    by (auto simp: targets_def in_grid_def)
  then show ?thesis by (rule finite_subset) simp
qed

lemma recolors_shape: "recolors t r m m' \<Longrightarrow> same_shape m m'"
  unfolding recolors_def by blast

lemma recolors_at:
  "recolors t r m m' \<Longrightarrow> in_grid m q \<Longrightarrow> at m' q = at m q \<or> (at m q = t \<and> at m' q = r)"
  unfolding recolors_def by blast

lemma recolorsI:
  "same_shape m m' \<Longrightarrow> (\<And>q. in_grid m q \<Longrightarrow> at m' q = at m q \<or> (at m q = t \<and> at m' q = r))
   \<Longrightarrow> recolors t r m m'"
  unfolding recolors_def by blast

lemma recolors_refl: "rectangular m \<Longrightarrow> recolors t r m m"
  by (simp add: recolors_def same_shape_refl)

lemma recolors_trans:
  assumes "recolors t r m m'" "recolors t r m' m''"
  shows "recolors t r m m''"
proof (rule recolorsI)
  show "same_shape m m''"
    using assms by (blast intro: same_shape_trans recolors_shape)
next
  fix q assume q: "in_grid m q"
  have "in_grid m' q" using q recolors_shape [OF assms(1)] by (simp add: in_grid_shape)
  then have "at m'' q = at m' q \<or> (at m' q = t \<and> at m'' q = r)"
    using assms(2) by (rule recolors_at [rotated])
  moreover have "at m' q = at m q \<or> (at m q = t \<and> at m' q = r)"
    using assms(1) q by (rule recolors_at)
  ultimately show "at m'' q = at m q \<or> (at m q = t \<and> at m'' q = r)" by auto
qed

lemma recolors_rect: "recolors t r m m' \<Longrightarrow> rectangular m'"
  by (auto dest: recolors_shape simp: same_shape_def)

lemma recolors_targets:
  assumes "t \<noteq> r" "recolors t r m m'"
  shows "targets m' t \<subseteq> targets m t"
proof
  fix q assume "q \<in> targets m' t"
  then have q: "in_grid m' q" "at m' q = t" by (simp_all add: targets_def)
  have g: "in_grid m q" using q(1) recolors_shape [OF assms(2)] by (simp add: in_grid_shape)
  have "at m' q = at m q \<or> (at m q = t \<and> at m' q = r)"
    using assms(2) g by (rule recolors_at)
  then have "at m q = t" using q(2) assms(1) by auto
  then show "q \<in> targets m t" using g by (simp add: targets_def)
qed

lemma recolors_upd:
  assumes "rectangular m" "p \<in> targets m t"
  shows "recolors t r m (upd m p r)"
proof (rule recolorsI)
  show "same_shape m (upd m p r)" using assms(1) by (rule same_shape_upd)
next
  fix q assume q: "in_grid m q"
  have p: "in_grid m p" "at m p = t" using assms(2) by (simp_all add: targets_def)
  show "at (upd m p r) q = at m q \<or> (at m q = t \<and> at (upd m p r) q = r)"
    using p(2) by (simp add: at_upd [OF assms(1) p(1) q])
qed

lemma targets_upd:
  assumes "t \<noteq> r" "rectangular m" "p \<in> targets m t"
  shows "targets (upd m p r) t = targets m t - {p}"
proof -
  have g: "in_grid (upd m p r) q = in_grid m q" for q
    using same_shape_upd [OF assms(2)] by (rule in_grid_shape)
  have p: "in_grid m p" using assms(3) by (simp add: targets_def)
  have "q \<in> targets (upd m p r) t \<longleftrightarrow> q \<in> targets m t - {p}" for q
  proof (cases "in_grid m q")
    case True
    then show ?thesis
      using assms(1) by (simp add: targets_def g at_upd [OF assms(2) p True])
  next
    case False
    then show ?thesis by (simp add: targets_def g)
  qed
  then show ?thesis by blast
qed

lemma region_subset: "q \<in> region S p \<Longrightarrow> q \<in> S"
  by (induction rule: region.induct) auto

lemma region_mono:
  assumes "S' \<subseteq> S" "q \<in> region S' p"
  shows "q \<in> region S p"
  using assms(2)
proof (induction rule: region.induct)
  case start
  then show ?case using assms(1) by (auto intro: region.start)
next
  case (step q q')
  then show ?case using assms(1) by (auto intro: region.step)
qed

lemma region_nbr:
  assumes "p \<in> S" "n \<in> nbrs4 p" "q \<in> region S n"
  shows "q \<in> region S p"
  using assms(3)
proof (induction rule: region.induct)
  case start
  then show ?case using assms(1,2) by (auto intro: region.start region.step)
next
  case (step q q')
  then show ?case by (auto intro: region.step)
qed

lemma walked_refl:
  "rectangular (ff_matrix self) \<Longrightarrow> N \<inter> targets (ff_matrix self) (target_color self) = {}
   \<Longrightarrow> walked self N self"
  by (simp add: walked_def recolors_refl)

lemma walked_fields:
  assumes "walked self N self'"
  shows "target_color self' = target_color self" "replacement_color self' = replacement_color self"
    "start_node self' = start_node self" "rectangular (ff_matrix self')"
proof -
  have eq: "self' = self\<lparr>ff_matrix := ff_matrix self'\<rparr>"
    using assms by (simp add: walked_def)
  show "target_color self' = target_color self"
    by (subst eq) simp
  show "replacement_color self' = replacement_color self"
    by (subst eq) simp
  show "start_node self' = start_node self"
    by (subst eq) simp
  show "rectangular (ff_matrix self')"
    using assms unfolding walked_def by (blast dest: recolors_rect)
qed

lemma walked_targets:
  "target_color self \<noteq> replacement_color self \<Longrightarrow> walked self N self' \<Longrightarrow>
   targets (ff_matrix self') (target_color self) \<subseteq> targets (ff_matrix self) (target_color self)"
  by (auto simp: walked_def dest: recolors_targets)

lemma walked_trans:
  assumes ne: "target_color A \<noteq> replacement_color A"
    and AB: "walked A N B" and BC: "walked B N' C"
  shows "walked A (N \<union> N') C"
proof -
  let ?t = "target_color A" and ?r = "replacement_color A"
  let ?TA = "targets (ff_matrix A) ?t" and ?TB = "targets (ff_matrix B) ?t"
    and ?TC = "targets (ff_matrix C) ?t"
  have tB: "target_color B = ?t" and rB: "replacement_color B = ?r"
    using walked_fields [OF AB] by simp_all
  have eqB: "B = A\<lparr>ff_matrix := ff_matrix B\<rparr>" using AB by (simp add: walked_def)
  have eqC: "C = B\<lparr>ff_matrix := ff_matrix C\<rparr>" using BC by (simp add: walked_def)
  have eq: "C = A\<lparr>ff_matrix := ff_matrix C\<rparr>"
    by (subst eqC, subst eqB) simp
  have rec: "recolors ?t ?r (ff_matrix A) (ff_matrix C)"
    using AB BC by (auto simp: walked_def tB rB intro: recolors_trans)
  have BA: "?TB \<subseteq> ?TA" using walked_targets [OF ne AB] .
  have CB: "?TC \<subseteq> ?TB" using walked_targets [of B N' C] BC ne by (simp add: tB rB)
  have N: "N \<inter> ?TB = {}" "N' \<inter> ?TC = {}"
    using AB BC by (simp_all add: walked_def tB)
  have cl1: "\<forall>q \<in> ?TA - ?TB. nbrs4 q \<inter> ?TB = {}"
    using AB by (simp add: walked_def)
  have cl2: "\<forall>q \<in> ?TB - ?TC. nbrs4 q \<inter> ?TC = {}"
    using BC by (simp add: walked_def tB)
  have rg1: "?TA - ?TB \<subseteq> (\<Union>n \<in> N. region ?TA n)"
    using AB by (simp add: walked_def)
  have rg2: "?TB - ?TC \<subseteq> (\<Union>n \<in> N'. region ?TB n)"
    using BC by (simp add: walked_def tB)
  have a: "(N \<union> N') \<inter> ?TC = {}" using N CB by blast
  have b: "\<forall>q \<in> ?TA - ?TC. nbrs4 q \<inter> ?TC = {}"
    using cl1 cl2 CB by blast
  have "?TB - ?TC \<subseteq> (\<Union>n \<in> N'. region ?TA n)"
    using rg2 region_mono [OF BA] by blast
  then have c: "?TA - ?TC \<subseteq> (\<Union>n \<in> N \<union> N'. region ?TA n)"
    using rg1 by blast
  show ?thesis
    unfolding walked_def using eq rec a b c by blast
qed

lemma dfs_invalid:
  "rectangular (ff_matrix self) \<Longrightarrow> (x, y) \<notin> targets (ff_matrix self) (target_color self)
   \<Longrightarrow> dfs self x y = Some (Inr self)"
  by (subst dfs.simps) (simp add: is_valid_rect)

lemma dfs_valid:
  assumes "rectangular (ff_matrix self)" "(x, y) \<in> targets (ff_matrix self) (target_color self)"
    and "dfs (self\<lparr>ff_matrix := upd (ff_matrix self) (x, y) (replacement_color self)\<rparr>) (x - 1) y
           = Some (Inr self1)"
    and "dfs self1 (x + 1) y = Some (Inr self2)"
    and "dfs self2 x (y - 1) = Some (Inr self3)"
  shows "dfs self x y = dfs self3 x (y + 1)"
proof -
  have g: "in_grid (ff_matrix self) (x, y)" using assms(2) by (simp add: targets_def)
  show ?thesis
    using assms set_cell_rect [OF assms(1) g, of "replacement_color self"]
    by (subst dfs.simps) (simp add: is_valid_rect)
qed

lemma walked_start:
  assumes ne: "target_color self \<noteq> replacement_color self"
    and rect: "rectangular (ff_matrix self)"
    and p: "p \<in> targets (ff_matrix self) (target_color self)"
    and w: "walked (self\<lparr>ff_matrix := upd (ff_matrix self) p (replacement_color self)\<rparr>)
              (nbrs4 p) self'"
  shows "walked self {p} self'"
proof -
  let ?t = "target_color self" and ?r = "replacement_color self"
  let ?m0 = "upd (ff_matrix self) p ?r"
  let ?T = "targets (ff_matrix self) ?t" and ?U = "targets ?m0 ?t"
    and ?T' = "targets (ff_matrix self') ?t"
  have T0: "?U = ?T - {p}" using ne rect p by (rule targets_upd)
  have eq: "self' = self\<lparr>ff_matrix := ff_matrix self'\<rparr>"
    using w by (simp add: walked_def)
  have rec0: "recolors ?t ?r ?m0 (ff_matrix self')"
    using w by (simp add: walked_def)
  have rec: "recolors ?t ?r (ff_matrix self) (ff_matrix self')"
    using recolors_upd [OF rect p] rec0 by (rule recolors_trans)
  have sub: "?T' \<subseteq> ?U" using ne rec0 by (rule recolors_targets)
  have nb: "nbrs4 p \<inter> ?T' = {}" using w by (simp add: walked_def)
  have cl: "\<forall>q \<in> ?U - ?T'. nbrs4 q \<inter> ?T' = {}" using w by (simp add: walked_def)
  have rg: "?U - ?T' \<subseteq> (\<Union>n \<in> nbrs4 p. region ?U n)" using w by (simp add: walked_def)
  have a: "{p} \<inter> ?T' = {}" using sub T0 by blast
  have b: "\<forall>q \<in> ?T - ?T'. nbrs4 q \<inter> ?T' = {}"
    using cl nb T0 by blast
  have "region ?U n \<subseteq> region ?T p" if "n \<in> nbrs4 p" for n
  proof
    fix q assume "q \<in> region ?U n"
    then have "q \<in> region ?T n" using T0 region_mono [of ?U ?T] by blast
    then show "q \<in> region ?T p" using p that by (rule region_nbr [rotated 2])
  qed
  then have "?U - ?T' \<subseteq> region ?T p" using rg by blast
  moreover have "p \<in> region ?T p" using p by (rule region.start)
  ultimately have c: "?T - ?T' \<subseteq> (\<Union>n \<in> {p}. region ?T n)" using T0 by blast
  show ?thesis
    unfolding walked_def using eq rec a b c by blast
qed

lemma walked_card:
  assumes "target_color self \<noteq> replacement_color self" "walked self N self'"
  shows "card (targets (ff_matrix self') (target_color self'))
       \<le> card (targets (ff_matrix self) (target_color self))"
  unfolding walked_fields(1) [OF assms(2)]
  using walked_targets [OF assms] by (rule card_mono [OF finite_targets])

lemma dfs_walks:
  assumes "target_color self \<noteq> replacement_color self" "rectangular (ff_matrix self)"
  shows "\<exists>self'. dfs self x y = Some (Inr self') \<and> walked self {(x, y)} self'"
  using assms
proof (induction "card (targets (ff_matrix self) (target_color self))" arbitrary: self x y
    rule: less_induct)
  case less
  let ?t = "target_color self" and ?r = "replacement_color self" and ?m = "ff_matrix self"
  show ?case
  proof (cases "(x, y) \<in> targets ?m ?t")
    case False
    then have "dfs self x y = Some (Inr self)"
      using less.prems(2) by (simp add: dfs_invalid)
    moreover have "walked self {(x, y)} self"
      using less.prems(2) False by (simp add: walked_refl)
    ultimately show ?thesis by blast
  next
    case True
    let ?self0 = "self\<lparr>ff_matrix := upd ?m (x, y) ?r\<rparr>"
    have T0: "targets (ff_matrix ?self0) (target_color ?self0) = targets ?m ?t - {(x, y)}"
      using targets_upd [OF less.prems(1,2) True] by simp
    have c0: "card (targets (ff_matrix ?self0) (target_color ?self0)) < card (targets ?m ?t)"
      unfolding T0 using finite_targets True by (rule card_Diff1_less)
    have ne0: "target_color ?self0 \<noteq> replacement_color ?self0"
      using less.prems(1) by simp
    have rect0: "rectangular (ff_matrix ?self0)"
      using same_shape_upd [OF less.prems(2)] by (simp add: same_shape_def)
    from less.hyps [OF c0 ne0 rect0]
    obtain self1 where d1: "dfs ?self0 (x - 1) y = Some (Inr self1)"
      and w1: "walked ?self0 {(x - 1, y)} self1" by blast
    have ne1: "target_color self1 \<noteq> replacement_color self1"
      using ne0 walked_fields(1,2) [OF w1] by simp
    have c1: "card (targets (ff_matrix self1) (target_color self1)) < card (targets ?m ?t)"
      using walked_card [OF ne0 w1] c0 by simp
    from less.hyps [OF c1 ne1 walked_fields(4) [OF w1]]
    obtain self2 where d2: "dfs self1 (x + 1) y = Some (Inr self2)"
      and w2: "walked self1 {(x + 1, y)} self2" by blast
    have ne2: "target_color self2 \<noteq> replacement_color self2"
      using ne1 walked_fields(1,2) [OF w2] by simp
    have c2: "card (targets (ff_matrix self2) (target_color self2)) < card (targets ?m ?t)"
      using walked_card [OF ne1 w2] c1 by simp
    from less.hyps [OF c2 ne2 walked_fields(4) [OF w2]]
    obtain self3 where d3: "dfs self2 x (y - 1) = Some (Inr self3)"
      and w3: "walked self2 {(x, y - 1)} self3" by blast
    have ne3: "target_color self3 \<noteq> replacement_color self3"
      using ne2 walked_fields(1,2) [OF w3] by simp
    have c3: "card (targets (ff_matrix self3) (target_color self3)) < card (targets ?m ?t)"
      using walked_card [OF ne2 w3] c2 by simp
    from less.hyps [OF c3 ne3 walked_fields(4) [OF w3]]
    obtain self4 where d4: "dfs self3 x (y + 1) = Some (Inr self4)"
      and w4: "walked self3 {(x, y + 1)} self4" by blast
    have w12: "walked ?self0 ({(x - 1, y)} \<union> {(x + 1, y)}) self2"
      using ne0 w1 w2 by (rule walked_trans)
    have w123: "walked ?self0 (({(x - 1, y)} \<union> {(x + 1, y)}) \<union> {(x, y - 1)}) self3"
      using ne0 w12 w3 by (rule walked_trans)
    have "walked ?self0 ((({(x - 1, y)} \<union> {(x + 1, y)}) \<union> {(x, y - 1)}) \<union> {(x, y + 1)}) self4"
      using ne0 w123 w4 by (rule walked_trans)
    moreover have "(({(x - 1, y)} \<union> {(x + 1, y)}) \<union> {(x, y - 1)}) \<union> {(x, y + 1)} = nbrs4 (x, y)"
      by (auto simp: nbrs4_def)
    ultimately have "walked ?self0 (nbrs4 (x, y)) self4" by simp
    then have "walked self {(x, y)} self4"
      using less.prems True by (intro walked_start)
    moreover have "dfs self x y = Some (Inr self4)"
      using dfs_valid [OF less.prems(2) True d1 d2 d3] d4 by simp
    ultimately show ?thesis by blast
  qed
qed

lemma region_start_mem: "q \<in> region S p \<Longrightarrow> p \<in> S"
  by (induction rule: region.induct) auto

lemma walked_region:
  assumes w: "walked self {p} self'"
    and q: "q \<in> region (targets (ff_matrix self) (target_color self)) p"
  shows "q \<in> targets (ff_matrix self) (target_color self) - targets (ff_matrix self') (target_color self)"
  using q
proof (induction rule: region.induct)
  case start
  then show ?case using w by (simp add: walked_def)
next
  case (step q q')
  have "nbrs4 q \<inter> targets (ff_matrix self') (target_color self) = {}"
    using w step.IH unfolding walked_def by blast
  then show ?case using step.hyps by blast
qed

lemma fill_spec:
  assumes rect: "rectangular (ff_matrix self)"
    and start: "in_grid (ff_matrix self) (start_node self)"
  shows "\<exists>g. fill self = Some (Inr (g, self\<lparr>ff_matrix := g\<rparr>))
       \<and> same_shape (ff_matrix self) g
       \<and> (\<forall>q \<in> region (targets (ff_matrix self) (target_color self)) (start_node self).
            at g q = replacement_color self)
       \<and> (\<forall>q. in_grid (ff_matrix self) q
              \<and> q \<notin> region (targets (ff_matrix self) (target_color self)) (start_node self)
            \<longrightarrow> at g q = at (ff_matrix self) q)"
proof -
  let ?m = "ff_matrix self" and ?t = "target_color self" and ?r = "replacement_color self"
  let ?p = "start_node self"
  let ?T = "targets ?m ?t"
  obtain sx sy where p: "?p = (sx, sy)" by (cases ?p)
  have c: "cell ?m sx sy = Inr (at ?m ?p)"
    using cell_in [OF rect start] by (simp add: p)
  have same: "fill self = Some (Inr (?m, self\<lparr>ff_matrix := ?m\<rparr>))
       \<and> same_shape ?m ?m \<and> (\<forall>q \<in> region ?T ?p. at ?m q = ?r)
       \<and> (\<forall>q. in_grid ?m q \<and> q \<notin> region ?T ?p \<longrightarrow> at ?m q = at ?m q)"
    if f: "fill self = Some (Inr (?m, self))" and e: "?p \<in> ?T \<Longrightarrow> ?t = ?r"
  proof -
    have "at ?m q = ?r" if "q \<in> region ?T ?p" for q
    proof -
      have "q \<in> ?T" using that by (rule region_subset)
      moreover have "?t = ?r" using region_start_mem [OF that] by (rule e)
      ultimately show ?thesis by (simp add: targets_def)
    qed
    then show ?thesis using f rect by (simp add: same_shape_refl)
  qed
  show ?thesis
  proof (cases "at ?m ?p = ?r")
    case True
    have "fill self = Some (Inr (?m, self))"
      by (simp add: fill_def p c [unfolded p] True [unfolded p])
    moreover have "?t = ?r" if "?p \<in> ?T"
      using that True by (simp add: targets_def)
    ultimately show ?thesis using same by blast
  next
    case guard: False
    show ?thesis
    proof (cases "?t = ?r")
      case True
      have "?p \<notin> ?T" using guard True by (simp add: targets_def)
      then have "dfs self sx sy = Some (Inr self)"
        using rect by (simp add: dfs_invalid p)
      then have "fill self = Some (Inr (?m, self))"
        using guard by (simp add: fill_def p c [unfolded p])
      then show ?thesis using same True by blast
    next
      case False
      from dfs_walks [OF False rect, of sx sy]
      obtain self' where d: "dfs self sx sy = Some (Inr self')" and w: "walked self {?p} self'"
        by (auto simp: p)
      let ?g = "ff_matrix self'"
      let ?T' = "targets ?g ?t"
      have eq: "self' = self\<lparr>ff_matrix := ?g\<rparr>" using w by (simp add: walked_def)
      have rec: "recolors ?t ?r ?m ?g" using w by (simp add: walked_def)
      have rg: "?T - ?T' \<subseteq> region ?T ?p" using w by (simp add: walked_def)
      have f: "fill self = Some (Inr (?g, self\<lparr>ff_matrix := ?g\<rparr>))"
        using guard d eq by (simp add: fill_def p c [unfolded p])
      have a: "at ?g q = ?r" if "q \<in> region ?T ?p" for q
      proof -
        have q: "q \<in> ?T - ?T'" using w that by (rule walked_region)
        then have g: "in_grid ?m q" "at ?m q = ?t" by (simp_all add: targets_def)
        have "in_grid ?g q" using g(1) recolors_shape [OF rec] by (simp add: in_grid_shape)
        then have "at ?g q \<noteq> ?t" using q by (simp add: targets_def)
        then show ?thesis using recolors_at [OF rec g(1)] g(2) by auto
      qed
      have b: "at ?g q = at ?m q" if "in_grid ?m q" "q \<notin> region ?T ?p" for q
      proof (cases "q \<in> ?T")
        case True
        then have "q \<in> ?T'" using that(2) rg by blast
        then show ?thesis using True by (simp add: targets_def)
      next
        case False
        then have "at ?m q \<noteq> ?t" using that(1) by (simp add: targets_def)
        then show ?thesis using recolors_at [OF rec that(1)] by auto
      qed
      show ?thesis
        using f recolors_shape [OF rec] a b by blast
    qed
  qed
qed

lemma upd_same: "at m p = v \<Longrightarrow> upd m p v = m"
  by (auto simp: at_def upd_def)

lemma nbrs4_sym: "q \<in> nbrs4 p \<Longrightarrow> p \<in> nbrs4 q"
  by (auto simp: nbrs4_def)

lemma dfs_same_color:
  assumes "dfs self x y = Some res"
  shows "rectangular (ff_matrix self) \<longrightarrow> target_color self = replacement_color self
         \<longrightarrow> res = Inr self \<and> \<not> paired self (x, y)"
proof -
  let ?Q = "\<lambda>self x y res. rectangular (ff_matrix self) \<longrightarrow>
      target_color self = replacement_color self \<longrightarrow> res = Inr self \<and> \<not> paired self (x, y)"
  have *: "(case ((self, x), y) of (a, b) \<Rightarrow> (case a of (c, d) \<Rightarrow> dfs c d) b) = Some res"
    using assms by simp
  have "(case ((self, x), y) of (a, b) \<Rightarrow> (case a of (c, d) \<Rightarrow> ?Q c d) b) res"
  proof (rule dfs.raw_induct [OF _ *], goal_cases)
    case (1 f self x y res)
    show ?case
    proof (intro impI)
      assume rect: "rectangular (ff_matrix self)"
        and same: "target_color self = replacement_color self"
      let ?T = "targets (ff_matrix self) (target_color self)"
      show "res = Inr self \<and> \<not> paired self (x, y)"
      proof (cases "(x, y) \<in> ?T")
        case False
        then show ?thesis
          using 1(2) by (simp add: is_valid_rect [OF rect] paired_def)
      next
        case True
        then have g: "in_grid (ff_matrix self) (x, y)"
          and v: "at (ff_matrix self) (x, y) = replacement_color self"
          using same by (simp_all add: targets_def)
        have sc: "set_cell (ff_matrix self) x y (replacement_color self) = Inr (ff_matrix self)"
          using set_cell_rect [OF rect g, of "replacement_color self"] upd_same [OF v] by simp
        from 1(2) obtain r1 where f1: "f self (x - 1) y = Some r1"
          and k1: "(case r1 of Inl e \<Rightarrow> Some (Inl e) | Inr self1 \<Rightarrow>
                    Option.bind (f self1 (x + 1) y) (\<lambda>r2.
                    case r2 of Inl e \<Rightarrow> Some (Inl e) | Inr self2 \<Rightarrow>
                    Option.bind (f self2 x (y - 1)) (\<lambda>r3.
                    case r3 of Inl e \<Rightarrow> Some (Inl e) | Inr self3 \<Rightarrow>
                    f self3 x (y + 1)))) = Some res"
          using True by (auto simp: is_valid_rect [OF rect] sc bind_eq_Some_conv)
        have q1: "r1 = Inr self" "\<not> paired self (x - 1, y)"
          using 1(1) [OF f1] rect same by simp_all
        from k1 obtain r2 where f2: "f self (x + 1) y = Some r2"
          and k2: "(case r2 of Inl e \<Rightarrow> Some (Inl e) | Inr self2 \<Rightarrow>
                    Option.bind (f self2 x (y - 1)) (\<lambda>r3.
                    case r3 of Inl e \<Rightarrow> Some (Inl e) | Inr self3 \<Rightarrow>
                    f self3 x (y + 1))) = Some res"
          by (auto simp: q1(1) bind_eq_Some_conv)
        have q2: "r2 = Inr self" "\<not> paired self (x + 1, y)"
          using 1(1) [OF f2] rect same by simp_all
        from k2 obtain r3 where f3: "f self x (y - 1) = Some r3"
          and k3: "(case r3 of Inl e \<Rightarrow> Some (Inl e) | Inr self3 \<Rightarrow>
                    f self3 x (y + 1)) = Some res"
          by (auto simp: q2(1) bind_eq_Some_conv)
        have q3: "r3 = Inr self" "\<not> paired self (x, y - 1)"
          using 1(1) [OF f3] rect same by simp_all
        have f4: "f self x (y + 1) = Some res"
          using k3 by (simp add: q3(1))
        have q4: "res = Inr self" "\<not> paired self (x, y + 1)"
          using 1(1) [OF f4] rect same by simp_all
        have "\<not> paired self (x, y)"
        proof
          assume "paired self (x, y)"
          then obtain q where q: "q \<in> nbrs4 (x, y)" "q \<in> ?T"
            by (auto simp: paired_def)
          have "paired self q"
            unfolding paired_def using q(2) True nbrs4_sym [OF q(1)] by blast
          moreover have "q = (x - 1, y) \<or> q = (x + 1, y) \<or> q = (x, y - 1) \<or> q = (x, y + 1)"
            using q(1) by (simp add: nbrs4_def)
          ultimately show False using q1(2) q2(2) q3(2) q4(2) by blast
        qed
        then show ?thesis using q4(1) by simp
      qed
    qed
  qed
  then show ?thesis by simp
qed

lemma dfs_diverges:
  assumes "rectangular (ff_matrix self)" "target_color self = replacement_color self"
    "paired self (x, y)"
  shows "dfs self x y = None"
proof (cases "dfs self x y")
  case None
  then show ?thesis .
next
  case (Some res)
  then show ?thesis using dfs_same_color [OF Some] assms by simp
qed

section \<open>Claim C6: what flood fill recolours\<close>

text \<open>
  C6: on a rectangular grid and a start coordinate inside it, when \<^verbatim>\<open>fill\<close> returns the
  grid \<open>g\<close>, every cell reachable from the start by a 4-connected path through cells
  that held the target colour holds the replacement colour in \<open>g\<close>; every other cell of
  the grid holds the value it had; and \<open>g\<close> is the grid of the object itself after the
  call (\<^verbatim>\<open>self.matrix\<close>, mutated in place), the object being otherwise unchanged.
\<close>

theorem fill_recolors_region:
  assumes "rectangular (ff_matrix self)"
    and "in_grid (ff_matrix self) (start_node self)"
    and "fill self = Some (Inr (g, self'))"
  shows "(\<forall>q \<in> region (targets (ff_matrix self) (target_color self)) (start_node self).
            at g q = replacement_color self)
       \<and> (\<forall>q. in_grid (ff_matrix self) q
              \<and> q \<notin> region (targets (ff_matrix self) (target_color self)) (start_node self)
            \<longrightarrow> at g q = at (ff_matrix self) q)
       \<and> same_shape (ff_matrix self) g
       \<and> g = ff_matrix self' \<and> self' = self\<lparr>ff_matrix := g\<rparr>"
proof -
  from fill_spec [OF assms(1,2)] obtain g0 where
    f: "fill self = Some (Inr (g0, self\<lparr>ff_matrix := g0\<rparr>))"
    and rest: "same_shape (ff_matrix self) g0"
      "\<forall>q \<in> region (targets (ff_matrix self) (target_color self)) (start_node self).
            at g0 q = replacement_color self"
      "\<forall>q. in_grid (ff_matrix self) q
              \<and> q \<notin> region (targets (ff_matrix self) (target_color self)) (start_node self)
            \<longrightarrow> at g0 q = at (ff_matrix self) q"
    by blast
  have "g = g0" "self' = self\<lparr>ff_matrix := g0\<rparr>"
    using f assms(3) by simp_all
  then show ?thesis using rest by simp
qed

theorem fill_recolors_region_witness:
  "rectangular (ff_matrix two_cells_problem)
   \<and> in_grid (ff_matrix two_cells_problem) (start_node two_cells_problem)
   \<and> fill two_cells_problem =
       Some (Inr ([[CHR ''C'', CHR ''Y'']], two_cells_problem\<lparr>ff_matrix := [[CHR ''C'', CHR ''Y'']]\<rparr>))
   \<and> at [[CHR ''C'', CHR ''Y'']] (0, 0) = replacement_color two_cells_problem
   \<and> at [[CHR ''C'', CHR ''Y'']] (0, 1) = at (ff_matrix two_cells_problem) (0, 1)"
proof -
  let ?P = two_cells_problem
  have h1: "rectangular (ff_matrix ?P)"
    by (simp add: two_cells_problem_def two_cells_def rectangular_def)
  have h2: "in_grid (ff_matrix ?P) (start_node ?P)"
    by (simp add: two_cells_problem_def two_cells_def in_grid_def)
  have h3: "fill ?P = Some (Inr ([[CHR ''C'', CHR ''Y'']], ?P\<lparr>ff_matrix := [[CHR ''C'', CHR ''Y'']]\<rparr>))"
    by (simp add: two_cells_problem_def two_cells_def fill_def dfs.simps is_valid_def
        set_cell_def setitem_def getitem_def cell_def)
  have "start_node ?P \<in> targets (ff_matrix ?P) (target_color ?P)"
    by (simp add: two_cells_problem_def two_cells_def targets_def in_grid_def at_def)
  then have "start_node ?P \<in> region (targets (ff_matrix ?P) (target_color ?P)) (start_node ?P)"
    by (rule region.start)
  then have a: "(0, 0) \<in> region (targets (ff_matrix ?P) (target_color ?P)) (start_node ?P)"
    by (simp add: two_cells_problem_def)
  have "(0, 1) \<notin> targets (ff_matrix ?P) (target_color ?P)"
    by (simp add: two_cells_problem_def two_cells_def targets_def in_grid_def at_def)
  then have b: "(0, 1) \<notin> region (targets (ff_matrix ?P) (target_color ?P)) (start_node ?P)"
    using region_subset by blast
  have c: "in_grid (ff_matrix ?P) (0, 1)"
    by (simp add: two_cells_problem_def two_cells_def in_grid_def)
  show ?thesis
    using fill_recolors_region [OF h1 h2 h3] h1 h2 h3 a b c by blast
qed

section \<open>Claim C8: the guard, and filling twice\<close>

text \<open>
  C8: when the start cell already holds the replacement colour, \<^verbatim>\<open>fill\<close> returns the
  grid as it is, without entering the walk; and when a fill of a rectangular grid from a
  start coordinate inside it has returned, the same fill run again on the object it left
  returns the same grid and leaves the same object.
\<close>

theorem fill_guard_idempotent:
  "(cell (ff_matrix self) (fst (start_node self)) (snd (start_node self))
       = Inr (replacement_color self)
     \<longrightarrow> fill self = Some (Inr (ff_matrix self, self)))
   \<and> (rectangular (ff_matrix self) \<and> in_grid (ff_matrix self) (start_node self)
       \<and> fill self = Some (Inr (g, self'))
     \<longrightarrow> fill self' = Some (Inr (g, self')))"
proof (intro conjI impI)
  assume "cell (ff_matrix self) (fst (start_node self)) (snd (start_node self))
       = Inr (replacement_color self)"
  then show "fill self = Some (Inr (ff_matrix self, self))"
    by (simp add: fill_def split_beta)
next
  assume a: "rectangular (ff_matrix self) \<and> in_grid (ff_matrix self) (start_node self)
       \<and> fill self = Some (Inr (g, self'))"
  let ?m = "ff_matrix self" and ?t = "target_color self" and ?r = "replacement_color self"
  let ?p = "start_node self"
  have rect: "rectangular ?m" and start: "in_grid ?m ?p" and f: "fill self = Some (Inr (g, self'))"
    using a by simp_all
  from fill_spec [OF rect start] f
  have eq: "self' = self\<lparr>ff_matrix := g\<rparr>" and sh: "same_shape ?m g"
    and rg: "\<forall>q \<in> region (targets ?m ?t) ?p. at g q = ?r"
    and un: "\<forall>q. in_grid ?m q \<and> q \<notin> region (targets ?m ?t) ?p \<longrightarrow> at g q = at ?m q"
    by auto
  have rect': "rectangular (ff_matrix self')" and start': "in_grid (ff_matrix self') (start_node self')"
    using sh start by (simp_all add: eq same_shape_def in_grid_def)
  have c': "cell g (fst ?p) (snd ?p) = Inr (at g ?p)"
    using cell_in [OF rect' start'] by (simp add: eq)
  show "fill self' = Some (Inr (g, self'))"
  proof (cases "at g ?p = ?r")
    case True
    then show ?thesis
      using c' by (simp add: fill_def split_beta eq)
  next
    case False
    then have nr: "?p \<notin> region (targets ?m ?t) ?p" using rg by blast
    then have "?p \<notin> targets ?m ?t" using region.start by blast
    moreover have "at g ?p = at ?m ?p" using un start nr by blast
    ultimately have "?p \<notin> targets g ?t"
      by (simp add: targets_def in_grid_shape [OF sh])
    then have "dfs self' (fst ?p) (snd ?p) = Some (Inr self')"
      using dfs_invalid [of self' "fst ?p" "snd ?p"] rect' by (simp add: eq)
    then show ?thesis
      using False c' by (simp add: fill_def split_beta eq)
  qed
qed

theorem fill_guard_idempotent_witness:
  "cell (ff_matrix two_cells_problem) (fst (start_node two_cells_problem))
       (snd (start_node two_cells_problem)) \<noteq> Inr (replacement_color two_cells_problem)
   \<and> rectangular (ff_matrix two_cells_problem)
   \<and> in_grid (ff_matrix two_cells_problem) (start_node two_cells_problem)
   \<and> fill two_cells_problem =
       Some (Inr ([[CHR ''C'', CHR ''Y'']], two_cells_problem\<lparr>ff_matrix := [[CHR ''C'', CHR ''Y'']]\<rparr>))
   \<and> cell [[CHR ''C'', CHR ''Y'']] 0 0 = Inr (replacement_color two_cells_problem)
   \<and> fill (two_cells_problem\<lparr>ff_matrix := [[CHR ''C'', CHR ''Y'']]\<rparr>) =
       Some (Inr ([[CHR ''C'', CHR ''Y'']], two_cells_problem\<lparr>ff_matrix := [[CHR ''C'', CHR ''Y'']]\<rparr>))"
proof -
  let ?P = two_cells_problem
  have h0: "cell (ff_matrix ?P) (fst (start_node ?P)) (snd (start_node ?P))
       \<noteq> Inr (replacement_color ?P)"
    by (simp add: two_cells_problem_def two_cells_def cell_def getitem_def)
  have h1: "rectangular (ff_matrix ?P)"
    by (simp add: two_cells_problem_def two_cells_def rectangular_def)
  have h2: "in_grid (ff_matrix ?P) (start_node ?P)"
    by (simp add: two_cells_problem_def two_cells_def in_grid_def)
  have h3: "fill ?P = Some (Inr ([[CHR ''C'', CHR ''Y'']], ?P\<lparr>ff_matrix := [[CHR ''C'', CHR ''Y'']]\<rparr>))"
    by (simp add: two_cells_problem_def two_cells_def fill_def dfs.simps is_valid_def
        set_cell_def setitem_def getitem_def cell_def)
  have h4: "cell [[CHR ''C'', CHR ''Y'']] 0 0 = Inr (replacement_color ?P)"
    by (simp add: two_cells_problem_def cell_def getitem_def)
  show ?thesis
    using fill_guard_idempotent [of ?P "[[CHR ''C'', CHR ''Y'']]"
        "?P\<lparr>ff_matrix := [[CHR ''C'', CHR ''Y'']]\<rparr>"] h0 h1 h2 h3 h4 by blast
qed

section \<open>Claim C10: flood fill terminates, and the guard is needed for it\<close>

text \<open>
  C10: on a rectangular grid and a start coordinate inside it \<^verbatim>\<open>fill\<close> returns, also
  when the target colour is the replacement colour. In that case, when the start cell
  holds that colour and so does one of its neighbours, the walk \<^verbatim>\<open>dfs\<close> entered from
  the start never returns (recolouring leaves each of the two cells valid for the other),
  and it is the guard that makes \<^verbatim>\<open>fill\<close> return, before the walk.
\<close>

theorem fill_terminates_guard_needed:
  assumes "rectangular (ff_matrix self)"
    and "in_grid (ff_matrix self) (start_node self)"
  shows "(\<exists>res. fill self = Some (Inr res))
       \<and> (target_color self = replacement_color self \<and> paired self (start_node self)
          \<longrightarrow> dfs self (fst (start_node self)) (snd (start_node self)) = None
              \<and> fill self = Some (Inr (ff_matrix self, self)))"
proof (intro conjI impI)
  show "\<exists>res. fill self = Some (Inr res)"
    using fill_spec [OF assms] by blast
next
  assume a: "target_color self = replacement_color self \<and> paired self (start_node self)"
  then show "dfs self (fst (start_node self)) (snd (start_node self)) = None"
    using dfs_diverges [OF assms(1), of "fst (start_node self)" "snd (start_node self)"] by simp
  have "start_node self \<in> targets (ff_matrix self) (replacement_color self)"
    using a by (auto simp: paired_def)
  then have "at (ff_matrix self) (start_node self) = replacement_color self"
    by (simp add: targets_def)
  then show "fill self = Some (Inr (ff_matrix self, self))"
    using cell_in [OF assms] by (simp add: fill_def split_beta)
qed

theorem fill_terminates_guard_needed_witness:
  "rectangular (ff_matrix twin_problem)
   \<and> in_grid (ff_matrix twin_problem) (start_node twin_problem)
   \<and> target_color twin_problem = replacement_color twin_problem
   \<and> paired twin_problem (start_node twin_problem)
   \<and> dfs twin_problem 0 0 = None
   \<and> fill twin_problem = Some (Inr (ff_matrix twin_problem, twin_problem))"
proof -
  let ?P = twin_problem
  have h1: "rectangular (ff_matrix ?P)"
    by (simp add: twin_problem_def rectangular_def)
  have h2: "in_grid (ff_matrix ?P) (start_node ?P)"
    by (simp add: twin_problem_def in_grid_def)
  have h3: "target_color ?P = replacement_color ?P"
    by (simp add: twin_problem_def)
  have h4: "paired ?P (start_node ?P)"
    by (simp add: twin_problem_def paired_def targets_def nbrs4_def in_grid_def at_def)
  have s: "fst (start_node ?P) = 0" "snd (start_node ?P) = 0"
    by (simp_all add: twin_problem_def)
  show ?thesis
    using fill_terminates_guard_needed [OF h1 h2] h1 h2 h3 h4 unfolding s by blast
qed

section \<open>Strategy A: the nodes of a search and their paths\<close>

lemmas small_nodes = n0_def n1_def n2_def n3_def

lemma path_of_nonempty: "path_of problem ss as \<Longrightarrow> ss \<noteq> []"
  by (induction problem ss as rule: path_of.induct) auto

lemma path_of_snoc:
  "path_of problem ss as \<Longrightarrow> a \<in> set (actions problem (last ss)) \<Longrightarrow>
   path_of problem (ss @ [result problem (last ss) a]) (as @ [a])"
  by (induction problem ss as rule: path_of.induct) auto

lemma cost_along_snoc:
  "path_of problem ss as \<Longrightarrow>
   cost_along problem (ss @ [s']) (as @ [a]) = cost_along problem ss as + action_cost problem (last ss) a s'"
  by (induction problem ss as rule: path_of.induct) auto

lemma valid_node_path:
  assumes "valid_node problem n"
  shows "\<exists>as. path_of problem (path_states (Some n)) as
       \<and> hd (path_states (Some n)) = initial problem
       \<and> last (path_states (Some n)) = state n
       \<and> path_cost n = cost_along problem (path_states (Some n)) as"
  using assms
proof (induction rule: valid_node.induct)
  case root
  have "path_of problem [initial problem] []" by simp
  then show ?case by (intro exI [of _ "[]"]) simp
next
  case (child n a)
  then obtain as where as: "path_of problem (path_states (Some n)) as"
    "hd (path_states (Some n)) = initial problem" "last (path_states (Some n)) = state n"
    "path_cost n = cost_along problem (path_states (Some n)) as"
    by blast
  let ?s' = "result problem (state n) a"
  have ne: "path_states (Some n) \<noteq> []" using as(1) by (rule path_of_nonempty)
  have "path_of problem (path_states (Some n) @ [?s']) (as @ [a])"
    using path_of_snoc [OF as(1)] child.hyps(2) by (simp add: as(3))
  moreover have "cost_along problem (path_states (Some n) @ [?s']) (as @ [a])
      = path_cost n + action_cost problem (state n) a ?s'"
    using cost_along_snoc [OF as(1)] by (simp add: as(3,4))
  ultimately show ?case
    using ne as(2) by (intro exI [of _ "as @ [a]"]) simp
qed

lemma expand_valid:
  "valid_node problem n \<Longrightarrow> c \<in> set (expand problem n) \<Longrightarrow> valid_node problem c"
  by (auto simp: expand_def Let_def intro: valid_node.child)

lemma dfs_step_valid:
  assumes "\<forall>n \<in> set frontier. valid_node problem n" "frontier \<noteq> []"
  shows "case dfs_step problem (frontier, explored) of
           Inl r \<Rightarrow> r = (Some (path_states (Some (last frontier))), Fin (path_cost (last frontier)))
                    \<and> is_goal problem (state (last frontier))
         | Inr c' \<Rightarrow> \<forall>n \<in> set (fst c'). valid_node problem n"
proof -
  have l: "valid_node problem (last frontier)" using assms by simp
  have b: "\<forall>n \<in> set (butlast frontier). valid_node problem n"
    using assms(1) by (auto dest: in_set_butlastD)
  show ?thesis
    using l b by (auto simp: dfs_step_def Let_def dest: expand_valid)
qed

lemma dfs_loop_valid:
  assumes "dfs_loop problem c = Some r"
  shows "(\<forall>n \<in> set (fst c). valid_node problem n) \<longrightarrow>
         r = (None, PosInf) \<or>
         (\<exists>n. valid_node problem n \<and> is_goal problem (state n)
              \<and> r = (Some (path_states (Some n)), Fin (path_cost n)))"
proof -
  let ?Q = "\<lambda>problem c r. (\<forall>n \<in> set (fst c). valid_node problem n) \<longrightarrow>
         r = (None, PosInf) \<or>
         (\<exists>n. valid_node problem n \<and> is_goal problem (state n)
              \<and> r = (Some (path_states (Some n)), Fin (path_cost n)))"
  have "?Q problem c r"
  proof (rule dfs_loop.raw_induct [where P = ?Q, OF _ assms], goal_cases)
    case (1 f problem c r)
    show ?case
    proof (intro impI)
      assume v: "\<forall>n \<in> set (fst c). valid_node problem n"
      show "r = (None, PosInf) \<or>
         (\<exists>n. valid_node problem n \<and> is_goal problem (state n)
              \<and> r = (Some (path_states (Some n)), Fin (path_cost n)))"
      proof (cases "fst c = []")
        case True
        then show ?thesis using 1(2) by simp
      next
        case False
        obtain frontier explored where c: "c = (frontier, explored)" by (cases c)
        have ne: "frontier \<noteq> []" using False c by simp
        have vf: "\<forall>n \<in> set frontier. valid_node problem n" using v c by simp
        note sv = dfs_step_valid [OF vf ne, of explored]
        show ?thesis
        proof (cases "dfs_step problem (frontier, explored)")
          case (Inl r')
          then have "r = r'" using 1(2) False c by simp
          moreover have "valid_node problem (last frontier)" using vf ne by simp
          ultimately show ?thesis using sv Inl by auto
        next
          case (Inr c')
          then have "f problem c' = Some r" using 1(2) False c by simp
          moreover have "\<forall>n \<in> set (fst c'). valid_node problem n" using sv Inr by simp
          ultimately show ?thesis using 1(1) by blast
        qed
      qed
    qed
  qed
  then show ?thesis by simp
qed

lemma expand_reachable:
  "state n \<in> reachable problem \<Longrightarrow> c \<in> set (expand problem n) \<Longrightarrow> state c \<in> reachable problem"
  by (auto simp: expand_def Let_def intro: reachable.step)

lemma dfs_loop_no_goal:
  assumes fin: "finite (reachable problem)"
    and nogoal: "\<forall>s \<in> reachable problem. \<not> is_goal problem s"
    and "\<forall>n \<in> set (fst c). state n \<in> reachable problem"
  shows "dfs_loop problem c = Some (None, PosInf)"
proof -
  have "wf (inv_image (less_than <*lex*> less_than)
          (\<lambda>c. (card (reachable problem - snd c), length (fst c))))"
    by (intro wf_inv_image wf_lex_prod wf_less_than)
  then show ?thesis using assms(3)
proof (induction c rule: wf_induct_rule)
  case (less c)
  obtain frontier explored where c: "c = (frontier, explored)" by (cases c)
  show ?case
  proof (cases "frontier = []")
    case True
    then show ?thesis by (subst dfs_loop.simps) (simp add: c)
  next
    case False
    let ?node = "last frontier"
    have inR: "state ?node \<in> reachable problem"
      using less.prems False c by simp
    have rest: "\<forall>n \<in> set (butlast frontier). state n \<in> reachable problem"
      using less.prems c by (auto dest: in_set_butlastD)
    show ?thesis
    proof (cases "state ?node \<in> explored")
      case True
      let ?c' = "(butlast frontier, explored)"
      have st: "dfs_step problem c = Inr ?c'"
        using True by (simp add: dfs_step_def c Let_def)
      have "(?c', c) \<in> inv_image (less_than <*lex*> less_than)
          (\<lambda>c. (card (reachable problem - snd c), length (fst c)))"
        using False by (simp add: c)
      then have "dfs_loop problem ?c' = Some (None, PosInf)"
        using rest by (intro less.IH) simp_all
      then show ?thesis
        using False st by (subst dfs_loop.simps) (simp add: c)
    next
      case new: False
      let ?c' = "(butlast frontier @ expand problem ?node, insert (state ?node) explored)"
      have ng: "\<not> is_goal problem (state ?node)" using inR nogoal by blast
      have st: "dfs_step problem c = Inr ?c'"
        using new ng by (simp add: dfs_step_def c Let_def)
      have "reachable problem - insert (state ?node) explored \<subset> reachable problem - explored"
        using inR new by blast
      then have "card (reachable problem - insert (state ?node) explored)
          < card (reachable problem - explored)"
        using fin by (intro psubset_card_mono) simp_all
      then have "(?c', c) \<in> inv_image (less_than <*lex*> less_than)
          (\<lambda>c. (card (reachable problem - snd c), length (fst c)))"
        by (simp add: c)
      moreover have "\<forall>n \<in> set (fst ?c'). state n \<in> reachable problem"
        using rest inR by (auto dest: expand_reachable)
      ultimately have "dfs_loop problem ?c' = Some (None, PosInf)"
        by (intro less.IH)
      then show ?thesis
        using False st by (subst dfs_loop.simps) (simp add: c)
    qed
  qed
qed
qed

lemma small_graph_reachable: "reachable (small_graph g) \<subseteq> {0, 1, 2, 3}"
proof
  fix s assume "s \<in> reachable (small_graph g)"
  then show "s \<in> {0, 1, 2, 3}"
    by (induction rule: reachable.induct) (auto simp: small_graph_def split: if_splits)
qed

lemma iterations_lifo:
  "iterations n problem (rest @ newer, E) = Inr (fr, E') \<Longrightarrow>
   (\<exists>newer'. fr = rest @ newer') \<or>
   (\<exists>m<n. \<exists>E''. iterations m problem (rest @ newer, E) = Inr (rest, E''))"
proof (induction n arbitrary: newer E)
  case 0
  then show ?case by auto
next
  case (Suc n)
  show ?case
  proof (cases "newer = []")
    case True
    have "iterations 0 problem (rest @ newer, E) = Inr (rest, E)" using True by simp
    then show ?thesis by blast
  next
    case False
    then have ne: "rest @ newer \<noteq> []" by simp
    have lb: "last (rest @ newer) = last newer" "butlast (rest @ newer) = rest @ butlast newer"
      using False by (simp_all add: butlast_append)
    from Suc.prems ne obtain c' where st: "dfs_step problem (rest @ newer, E) = Inr c'"
      and it: "iterations n problem c' = Inr (fr, E')"
      by (auto split: sum.splits)
    from st obtain newer' E1 where c': "c' = (rest @ newer', E1)"
      by (auto simp: dfs_step_def Let_def lb split: if_splits)
    from Suc.IH [OF it [unfolded c']] show ?thesis
    proof
      assume "\<exists>newer'. fr = rest @ newer'"
      then show ?thesis by blast
    next
      assume "\<exists>m<n. \<exists>E''. iterations m problem (rest @ newer', E1) = Inr (rest, E'')"
      then obtain m E'' where m: "m < n" "iterations m problem (rest @ newer', E1) = Inr (rest, E'')"
        by blast
      have "iterations (Suc m) problem (rest @ newer, E) = Inr (rest, E'')"
        using ne st m(2) by (simp add: c')
      then show ?thesis using m(1) by (metis Suc_less_eq)
    qed
  qed
qed

section \<open>Claim C7: the returned path is a path to a goal\<close>

text \<open>
  C7: whenever the search returns a path \<open>[s0, ..., sk]\<close> with a cost, \<open>s0\<close> is the
  initial state, \<open>sk\<close> satisfies \<^verbatim>\<open>is_goal\<close>, there are actions, each one among the
  actions of its state, whose results join each state to the next, and the cost is the
  sum of \<^verbatim>\<open>action_cost\<close> over these steps.
\<close>

theorem returned_path_valid:
  assumes "depth_first_search problem = Some (Some path, c)"
  shows "\<exists>as. path_of problem path as
       \<and> hd path = initial problem
       \<and> is_goal problem (last path)
       \<and> c = Fin (cost_along problem path as)"
proof -
  have "\<forall>n \<in> set (fst ([Node (initial problem) None None 0], {}::'a set)). valid_node problem n"
    by (simp add: valid_node.root)
  with dfs_loop_valid [OF assms [unfolded depth_first_search_def]]
  obtain n where n: "valid_node problem n" "is_goal problem (state n)"
    "path = path_states (Some n)" "c = Fin (path_cost n)"
    by auto
  from valid_node_path [OF n(1)] show ?thesis
    using n(2) by (auto simp: n(3,4))
qed

theorem returned_path_valid_witness:
  "depth_first_search (small_graph 3) = Some (Some [0, 2, 3], Fin 2)
   \<and> (\<exists>as. path_of (small_graph 3) [0, 2, 3] as
       \<and> hd [0, 2, 3] = initial (small_graph 3)
       \<and> is_goal (small_graph 3) (last [0, 2, 3])
       \<and> Fin 2 = Fin (cost_along (small_graph 3) [0, 2, 3] as))"
proof -
  have h: "depth_first_search (small_graph 3) = Some (Some [0, 2, 3], Fin 2)"
    by (simp add: depth_first_search_def dfs_loop.simps dfs_step_def expand_def
        small_graph_def Let_def)
  show ?thesis
    using returned_path_valid [OF h] h by simp
qed

section \<open>Claim C9: no path when the goal cannot be reached\<close>

text \<open>
  C9: when finitely many states can be reached from the initial state and none of them
  satisfies \<^verbatim>\<open>is_goal\<close>, the search terminates and returns the pair
  \<^verbatim>\<open>(None, math.inf)\<close>.
\<close>

theorem unreachable_goal_gives_no_path:
  assumes "finite (reachable problem)"
    and "\<forall>s \<in> reachable problem. \<not> is_goal problem s"
  shows "depth_first_search problem = Some (None, PosInf)"
  unfolding depth_first_search_def
  using assms by (intro dfs_loop_no_goal) (simp_all add: reachable.init)

theorem unreachable_goal_gives_no_path_witness:
  "finite (reachable (small_graph 7))
   \<and> \<not> (\<exists>s \<in> reachable (small_graph 7). is_goal (small_graph 7) s)
   \<and> depth_first_search (small_graph 7) = Some (None, PosInf)"
proof -
  have h1: "finite (reachable (small_graph 7))"
    using small_graph_reachable [of 7] by (rule finite_subset) simp
  have h2: "\<forall>s \<in> reachable (small_graph 7). \<not> is_goal (small_graph 7) s"
    using small_graph_reachable [of 7] by (auto simp: small_graph_def)
  show ?thesis
    using unreachable_goal_gives_no_path [OF h1 h2] h1 h2 by blast
qed

section \<open>Claim C2: the order in which the frontier is explored\<close>

text \<open>
  C2 (as stated): the children pushed when a node is expanded are explored after all
  nodes that are then on the frontier. They are not. On the small problem the second
  iteration pops the node of state 2 while the node of state 1 waits on the frontier, and
  pushes the child of state 3; the third iteration explores that child, and the node of
  state 1 is explored only in the fourth.
\<close>

theorem child_explored_before_older_node:
  "dfs_step (small_graph 7) ([n0], {}) = Inr ([n1, n2], {0})
   \<and> dfs_step (small_graph 7) ([n1, n2], {0}) = Inr ([n1, n3], {0, 2})
   \<and> n3 \<in> set (expand (small_graph 7) n2)
   \<and> dfs_step (small_graph 7) ([n1, n3], {0, 2}) = Inr ([n1], {0, 2, 3})
   \<and> dfs_step (small_graph 7) ([n1], {0, 2, 3}) = Inr ([], {0, 1, 2, 3})"
  by (auto simp: dfs_step_def expand_def small_graph_def small_nodes Let_def)

text \<open>
  C2 (amended): when a node that is neither explored nor a goal is popped, its children
  are pushed on top of what is left of the frontier, so the child pushed last is the node
  popped next; and the nodes that were left on the frontier stay there, untouched, until
  every node above them has been popped: the children are explored before the nodes that
  were on the frontier.
\<close>

theorem children_explored_first:
  assumes "frontier \<noteq> []"
    and "state (last frontier) \<notin> explored"
    and "\<not> is_goal problem (state (last frontier))"
    and "iterations n problem
           (butlast frontier @ expand problem (last frontier), insert (state (last frontier)) explored)
         = Inr (fr, E)"
  shows "dfs_step problem (frontier, explored) =
           Inr (butlast frontier @ expand problem (last frontier),
                insert (state (last frontier)) explored)
       \<and> (expand problem (last frontier) \<noteq> [] \<longrightarrow>
            last (butlast frontier @ expand problem (last frontier))
              = last (expand problem (last frontier)))
       \<and> ((\<exists>newer. fr = butlast frontier @ newer) \<or>
          (\<exists>m<n. \<exists>E'. iterations m problem
               (butlast frontier @ expand problem (last frontier),
                insert (state (last frontier)) explored) = Inr (butlast frontier, E')))"
proof (intro conjI impI)
  show "dfs_step problem (frontier, explored) =
           Inr (butlast frontier @ expand problem (last frontier),
                insert (state (last frontier)) explored)"
    using assms(2,3) by (simp add: dfs_step_def Let_def)
next
  assume "expand problem (last frontier) \<noteq> []"
  then show "last (butlast frontier @ expand problem (last frontier))
              = last (expand problem (last frontier))"
    by simp
next
  show "(\<exists>newer. fr = butlast frontier @ newer) \<or>
          (\<exists>m<n. \<exists>E'. iterations m problem
               (butlast frontier @ expand problem (last frontier),
                insert (state (last frontier)) explored) = Inr (butlast frontier, E'))"
    using assms(4) by (rule iterations_lifo)
qed

theorem children_explored_first_witness:
  "[n1, n2] \<noteq> []
   \<and> state (last [n1, n2]) \<notin> {0}
   \<and> \<not> is_goal (small_graph 7) (state (last [n1, n2]))
   \<and> iterations 1 (small_graph 7) ([n1, n3], {0, 2}) = Inr ([n1], {0, 2, 3})
   \<and> dfs_step (small_graph 7) ([n1, n2], {0}) = Inr ([n1, n3], {0, 2})
   \<and> last [n1, n3] = n3
   \<and> (\<exists>newer. [n1] = butlast [n1, n2] @ newer)"
proof -
  let ?P = "small_graph 7"
  have e: "expand ?P (last [n1, n2]) = [n3]"
    by (simp add: expand_def small_graph_def small_nodes Let_def)
  have h2: "state (last [n1, n2]) \<notin> {0::nat}"
    by (simp add: small_nodes)
  have h3: "\<not> is_goal ?P (state (last [n1, n2]))"
    by (simp add: small_graph_def small_nodes)
  have h4: "iterations 1 ?P
      (butlast [n1, n2] @ expand ?P (last [n1, n2]), insert (state (last [n1, n2])) {0})
      = Inr ([n1], {0, 2, 3})"
    unfolding e
    by (auto simp: dfs_step_def expand_def small_graph_def small_nodes Let_def)
  have i: "insert (state (last [n1, n2])) {0} = {0, 2}"
    by (auto simp: small_nodes)
  show ?thesis
    using children_explored_first [OF _ h2 h3 h4] h2 h3 h4
    unfolding e i by simp
qed

section \<open>Longest ascending path: the search computes the longest path\<close>

lemma filterE_pure:
  "(\<And>x. x \<in> set xs \<Longrightarrow> p x = Inr (q x)) \<Longrightarrow> filterE p xs = Inr (filter q xs)"
  by (induction xs) auto

lemma box_in_grid: "well_formed P \<Longrightarrow> s \<in> box P \<longleftrightarrow> in_grid (matrix P) s"
  by (cases s) (auto simp: well_formed_def box_def in_grid_def)

lemma mp_actions_well_formed:
  assumes wf: "well_formed P" and s: "s \<in> box P"
  shows "mp_actions P s =
     Inr (filter (\<lambda>d. d \<noteq> (0, 0) \<and> in_grid (matrix P) (mp_result s d)
                    \<and> int (at (matrix P) (mp_result s d)) = int (at (matrix P) s) + 1)
            (List.product [-1, 0, 1] [-1, 0, 1]))"
proof -
  obtain r c where rc: "s = (r, c)" by (cases s)
  have rect: "rectangular (matrix P)" using wf by (simp add: well_formed_def)
  have gs: "in_grid (matrix P) s" using box_in_grid [OF wf] s by simp
  have cs: "cell (matrix P) r c = Inr (at (matrix P) s)"
    using cell_in [OF rect gs] by (simp add: rc)
  have "(case d of (dr, dc) \<Rightarrow>
            if (dr \<noteq> 0 \<or> dc \<noteq> 0) \<and> 0 \<le> r + dr \<and> r + dr < rows P
               \<and> 0 \<le> c + dc \<and> c + dc < cols P
            then (case cell (matrix P) (r + dr) (c + dc) of
                    Inl e \<Rightarrow> Inl e
                  | Inr v \<Rightarrow> (case cell (matrix P) r c of
                                Inl e \<Rightarrow> Inl e
                              | Inr u \<Rightarrow> Inr (int v = int u + 1)))
            else Inr False)
        = Inr (d \<noteq> (0, 0) \<and> in_grid (matrix P) (mp_result s d)
                    \<and> int (at (matrix P) (mp_result s d)) = int (at (matrix P) s) + 1)" for d
  proof -
    obtain dr dc where d: "d = (dr, dc)" by (cases d)
    have res: "mp_result s (dr, dc) = (r + dr, c + dc)" by (simp add: mp_result_def rc)
    have g: "in_grid (matrix P) (r + dr, c + dc) \<longleftrightarrow>
        0 \<le> r + dr \<and> r + dr < rows P \<and> 0 \<le> c + dc \<and> c + dc < cols P"
      using wf by (simp add: in_grid_def well_formed_def)
    show ?thesis
    proof (cases "in_grid (matrix P) (r + dr, c + dc)")
      case True
      have "cell (matrix P) (r + dr) (c + dc) = Inr (at (matrix P) (r + dr, c + dc))"
        using cell_in [OF rect True] by simp
      then show ?thesis
        using True g by (simp add: d res cs)
    next
      case False
      then have "\<not> (0 \<le> r + dr \<and> r + dr < rows P \<and> 0 \<le> c + dc \<and> c + dc < cols P)"
        unfolding g .
      then show ?thesis using False by (auto simp: d res)
    qed
  qed
  then show ?thesis
    unfolding mp_actions_def rc prod.case
    by (intro filterE_pure) (simp add: rc)
qed

lemma mp_children:
  assumes wf: "well_formed P" and s: "s \<in> box P" and a: "mp_actions P s = Inr acts"
  shows "mp_result s ` set acts = {q. ascending_step (matrix P) s q}"
proof -
  let ?m = "matrix P"
  have acts: "acts = filter (\<lambda>d. d \<noteq> (0, 0) \<and> in_grid ?m (mp_result s d)
                    \<and> int (at ?m (mp_result s d)) = int (at ?m s) + 1)
            (List.product [-1, 0, 1] [-1, 0, 1])"
    using mp_actions_well_formed [OF wf s] a by simp
  have deltas: "set (List.product [-1, 0, 1] [-1, 0, 1]) = {-1, 0, 1} \<times> {-1, 0, 1::int}"
    by simp
  have memD: "fst d \<in> {-1, 0, 1} \<and> snd d \<in> {-1, 0, 1} \<and> d \<noteq> (0, 0)
        \<and> in_grid ?m (mp_result s d) \<and> int (at ?m (mp_result s d)) = int (at ?m s) + 1"
    if "d \<in> set acts" for d
    using that unfolding acts set_filter deltas by auto
  have memI: "d \<in> set acts"
    if "fst d \<in> {-1, 0, 1}" "snd d \<in> {-1, 0, 1}" "d \<noteq> (0, 0)"
      "in_grid ?m (mp_result s d)" "int (at ?m (mp_result s d)) = int (at ?m s) + 1" for d
    using that unfolding acts set_filter deltas by (cases d) auto
  show ?thesis
  proof (intro set_eqI iffI)
    fix q assume "q \<in> mp_result s ` set acts"
    then obtain d where "d \<in> set acts" and dq: "q = mp_result s d" by blast
    from memD [OF this(1)]
    have d: "fst d \<in> {-1, 0, 1}" "snd d \<in> {-1, 0, 1}" "d \<noteq> (0, 0)"
      "in_grid ?m q" "int (at ?m q) = int (at ?m s) + 1"
      unfolding dq by blast+
    have "fst d \<noteq> 0 \<or> snd d \<noteq> 0"
      using d(3) by (simp add: prod_eq_iff)
    moreover have "fst q = fst s + fst d" "snd q = snd s + snd d"
      by (simp_all add: dq mp_result_def split_beta)
    ultimately have "q \<noteq> s \<and> \<bar>fst q - fst s\<bar> \<le> 1 \<and> \<bar>snd q - snd s\<bar> \<le> 1"
      using d(1,2) by (auto simp: prod_eq_iff)
    then show "q \<in> {q. ascending_step ?m s q}"
      using d(4,5) by (simp add: ascending_step_def)
  next
    fix q assume "q \<in> {q. ascending_step ?m s q}"
    then have q: "in_grid ?m q" "q \<noteq> s" "\<bar>fst q - fst s\<bar> \<le> 1" "\<bar>snd q - snd s\<bar> \<le> 1"
      "int (at ?m q) = int (at ?m s) + 1"
      by (simp_all add: ascending_step_def)
    let ?d = "(fst q - fst s, snd q - snd s)"
    have r: "mp_result s ?d = q" by (simp add: mp_result_def split_beta)
    have "fst q - fst s \<in> {-1, 0, 1}" "snd q - snd s \<in> {-1, 0, 1}"
      using q(3,4) by auto
    moreover have "?d \<noteq> (0, 0)" using q(2) by (simp add: prod_eq_iff)
    ultimately have "?d \<in> set acts"
      using q(1,5) by (intro memI) (simp_all add: r)
    then have "mp_result s ?d \<in> mp_result s ` set acts" by (rule imageI)
    then show "q \<in> mp_result s ` set acts" unfolding r .
  qed
qed

lemma Max_insert_max:
  "finite A \<Longrightarrow> Max (insert (max a b) A) = Max (insert a (insert b A))" for a :: nat
  by (cases "A = {}") (simp_all add: max.assoc)

lemma fold_max_Inr:
  fixes g :: "'a \<Rightarrow> nat"
  assumes "\<And>a mx. a \<in> set xs \<Longrightarrow> step a (Inr mx) = (Inr (max mx (g a)) :: error + nat)"
  shows "fold step xs (Inr mx) = Inr (Max (insert mx (g ` set xs)))"
  using assms
proof (induction xs arbitrary: mx)
  case Nil
  then show ?case by simp
next
  case (Cons x xs)
  have "fold step (x # xs) (Inr mx) = fold step xs (Inr (max mx (g x)))"
    using Cons.prems by simp
  also have "\<dots> = Inr (Max (insert (max mx (g x)) (g ` set xs)))"
    using Cons.prems by (intro Cons.IH) simp
  also have "Max (insert (max mx (g x)) (g ` set xs)) = Max (insert mx (g ` set (x # xs)))"
    by (simp add: Max_insert_max)
  finally show ?case .
qed

lemma extends_Nil: "well_formed P \<Longrightarrow> s \<in> box P \<Longrightarrow> extends P s V []"
  by (simp add: extends_def box_in_grid)

lemma extends_Cons:
  "extends P s V (q # r) \<longleftrightarrow>
     in_grid (matrix P) s \<and> ascending_step (matrix P) s q \<and> q \<notin> insert s V
     \<and> extends P q (insert s V) r"
  by (auto simp: extends_def)

lemma recursive_dfs_spec:
  "well_formed P \<Longrightarrow> s \<in> box P \<Longrightarrow>
   \<exists>n. recursive_dfs P s V = Inr n
     \<and> (\<exists>rest. extends P s V rest \<and> n = 1 + length rest)
     \<and> (\<forall>rest. extends P s V rest \<longrightarrow> 1 + length rest \<le> n)"
proof (induction P s V rule: recursive_dfs.induct)
  case (1 P s V)
  note wf = "1.prems"(1) and s = "1.prems"(2)
  let ?m = "matrix P"
  obtain acts where acts: "mp_actions P s = Inr acts"
    using mp_actions_well_formed [OF wf s] by blast
  note children = mp_children [OF wf s acts]
  let ?child = "mp_result s"
  let ?V' = "insert s V"
  define g where "g = (\<lambda>a. if ?child a \<notin> ?V' then projr (recursive_dfs P (?child a) ?V') else 0)"
  have IH: "\<exists>n. recursive_dfs P (?child a) ?V' = Inr n
     \<and> (\<exists>rest. extends P (?child a) ?V' rest \<and> n = 1 + length rest)
     \<and> (\<forall>rest. extends P (?child a) ?V' rest \<longrightarrow> 1 + length rest \<le> n)"
    if "a \<in> set acts" "?child a \<notin> ?V'" for a
    using "1.IH" [OF acts that wf mp_actions_in_box [OF acts that(1)]] .
  have stepg: "visit_child P s V a (Inr mx) = Inr (max mx (g a))" if "a \<in> set acts" for a mx
  proof (cases "?child a \<notin> ?V'")
    case True
    from IH [OF that True] obtain n where "recursive_dfs P (?child a) ?V' = Inr n" by blast
    then show ?thesis using True by (simp add: visit_child_def g_def)
  next
    case False
    then show ?thesis by (auto simp: visit_child_def g_def)
  qed
  define M where "M = Max (insert 0 (g ` set acts))"
  have val: "recursive_dfs P s V = Inr (1 + M)"
    using fold_max_Inr [of acts "visit_child P s V" g 0, OF stepg]
    by (subst recursive_dfs_unfold) (simp add: acts M_def)
  have gs: "in_grid ?m s" using box_in_grid [OF wf] s by simp
  have ex: "\<exists>rest. extends P s V rest \<and> 1 + M = 1 + length rest"
  proof -
    have "M \<in> insert 0 (g ` set acts)" unfolding M_def by (intro Max_in) simp_all
    then consider "M = 0" | a where "a \<in> set acts" "M = g a" "M \<noteq> 0" by blast
    then show ?thesis
    proof cases
      case 1
      then show ?thesis using extends_Nil [OF wf s, of V] by (intro exI [of _ "[]"]) simp
    next
      case (2 a)
      then have c: "?child a \<notin> ?V'" by (auto simp: g_def split: if_splits)
      from IH [OF 2(1) c] obtain n rest where n: "recursive_dfs P (?child a) ?V' = Inr n"
        "extends P (?child a) ?V' rest" "n = 1 + length rest" by blast
      have "M = n" using 2(2) c n(1) by (simp add: g_def)
      moreover have "ascending_step ?m s (?child a)"
        using children 2(1) by blast
      then have "extends P s V (?child a # rest)"
        using gs c n(2) by (simp add: extends_Cons)
      ultimately show ?thesis using n(3) by (intro exI [of _ "?child a # rest"]) simp
    qed
  qed
  have ub: "1 + length rest \<le> 1 + M" if "extends P s V rest" for rest
  proof (cases rest)
    case Nil
    then show ?thesis by simp
  next
    case (Cons q r)
    then have q: "ascending_step ?m s q" "q \<notin> ?V'" "extends P q ?V' r"
      using that by (simp_all add: extends_Cons)
    from q(1) children obtain a where a: "a \<in> set acts" "q = ?child a" by blast
    from IH [OF a(1)] q(2,3) obtain n where n: "recursive_dfs P (?child a) ?V' = Inr n"
      "1 + length r \<le> n" unfolding a(2) by blast
    have "g a = n" using q(2) n(1) unfolding a(2) by (simp add: g_def)
    moreover have "g a \<le> M" unfolding M_def using a(1) by (intro Max_ge) simp_all
    ultimately show ?thesis using n(2) Cons by simp
  qed
  show ?case using val ex ub by blast
qed

lemma set_py_range: "set (py_range n) = {0..<n}"
  by (auto simp: py_range_def)

lemma init_rectangular:
  assumes "rectangular m"
  shows "MatrixPathProblem_init m ch =
     Inr \<lparr>matrix = m, start_char = ch, rows = int (length m), cols = int (length (hd m)),
          initial_positions =
            filter (\<lambda>p. at m p = ch)
              (List.product (py_range (int (length m))) (py_range (int (length (hd m)))))\<rparr>"
proof -
  have "(case p of (r, c) \<Rightarrow> case cell m r c of Inl e \<Rightarrow> Inl e | Inr v \<Rightarrow> Inr (v = ch))
      = Inr (at m p = ch)"
    if "p \<in> set (List.product (py_range (int (length m))) (py_range (int (length (hd m)))))" for p
  proof -
    have "in_grid m p" using that by (auto simp: set_py_range in_grid_def)
    from cell_in [OF assms this] show ?thesis by (simp add: split_beta)
  qed
  then have "find_start_positions m ch (int (length m)) (int (length (hd m))) =
      Inr (filter (\<lambda>p. at m p = ch)
              (List.product (py_range (int (length m))) (py_range (int (length (hd m))))))"
    unfolding find_start_positions_def by (rule filterE_pure)
  then show ?thesis
    by (simp add: MatrixPathProblem_init_def getitem_row0 [OF assms])
qed

lemma longest_path_search_value:
  assumes wf: "well_formed P" and starts: "set (initial_positions P) \<subseteq> box P"
  shows "longest_path_search P =
     Inr (Max (insert 0 ((\<lambda>p. projr (recursive_dfs P p {})) ` set (initial_positions P))))"
  unfolding longest_path_search_def
proof (rule fold_max_Inr)
  fix p mx assume "p \<in> set (initial_positions P)"
  then have "p \<in> box P" using starts by blast
  from recursive_dfs_spec [OF wf this, of "{}"] obtain n where "recursive_dfs P p {} = Inr n"
    by blast
  then show "(case Inr mx of
          Inl e \<Rightarrow> Inl e
        | Inr max_path_length \<Rightarrow>
            (case recursive_dfs P p {} of
               Inl e \<Rightarrow> Inl e
             | Inr len \<Rightarrow> Inr (max max_path_length len)))
       = Inr (max mx (projr (recursive_dfs P p {})))"
    by simp
qed

section \<open>Claim C4: the length of the longest ascending path\<close>

text \<open>
  C4: for every rectangular grid of characters and every start character, the search
  returns a number \<open>n\<close> such that no simple ascending path (8-directional steps, each
  to a character one code point higher) that starts on a cell holding the start character
  has more than \<open>n\<close> cells; when some cell holds the start character, \<open>n\<close> is at least
  1 and is the number of cells of such a path (so a start cell with no successor gives 1);
  and when no cell holds it, \<open>n\<close> is 0.
\<close>

theorem longest_path_correct:
  assumes "rectangular m"
  shows "\<exists>n. find_longest_path m ch = Inr n
     \<and> (\<forall>path. ascending_path m path \<and> distinct path \<and> at m (hd path) = ch
            \<longrightarrow> length path \<le> n)
     \<and> ((\<exists>p. in_grid m p \<and> at m p = ch) \<longrightarrow>
          1 \<le> n \<and> (\<exists>path. ascending_path m path \<and> distinct path \<and> at m (hd path) = ch
                          \<and> length path = n))
     \<and> ((\<nexists>p. in_grid m p \<and> at m p = ch) \<longrightarrow> n = 0)"
proof -
  define P where "P = \<lparr>matrix = m, start_char = ch, rows = int (length m),
      cols = int (length (hd m)),
      initial_positions = filter (\<lambda>p. at m p = ch)
              (List.product (py_range (int (length m))) (py_range (int (length (hd m)))))\<rparr>"
  have wf: "well_formed P" using assms by (simp add: well_formed_def P_def)
  have mP: "matrix P = m" by (simp add: P_def)
  have S: "set (initial_positions P) = {p. in_grid m p \<and> at m p = ch}"
    by (auto simp: P_def set_py_range in_grid_def)
  have sub: "set (initial_positions P) \<subseteq> box P"
    unfolding S using box_in_grid [OF wf] by (auto simp: mP)
  define h where "h = (\<lambda>p. projr (recursive_dfs P p {}))"
  define n where "n = Max (insert 0 (h ` set (initial_positions P)))"
  have val: "find_longest_path m ch = Inr n"
    using longest_path_search_value [OF wf sub]
    by (simp add: find_longest_path_def init_rectangular [OF assms] P_def [symmetric] n_def h_def)
  have spec: "\<exists>rest. extends P p {} rest \<and> h p = 1 + length rest"
    "\<And>rest. extends P p {} rest \<Longrightarrow> 1 + length rest \<le> h p"
    if "p \<in> set (initial_positions P)" for p
  proof -
    have "p \<in> box P" using that sub by blast
    from recursive_dfs_spec [OF wf this, of "{}"] obtain k where k: "recursive_dfs P p {} = Inr k"
      "\<exists>rest. extends P p {} rest \<and> k = 1 + length rest"
      "\<forall>rest. extends P p {} rest \<longrightarrow> 1 + length rest \<le> k" by blast
    have hk: "h p = k" by (simp add: h_def k(1))
    show "\<exists>rest. extends P p {} rest \<and> h p = 1 + length rest" using k(2) hk by simp
    show "\<And>rest. extends P p {} rest \<Longrightarrow> 1 + length rest \<le> h p" using k(3) hk by simp
  qed
  have ge: "h p \<le> n" if "p \<in> set (initial_positions P)" for p
    unfolding n_def using that by (intro Max_ge) simp_all
  have ub: "length path \<le> n"
    if "ascending_path m path" "distinct path" "at m (hd path) = ch" for path
  proof -
    have "path \<noteq> []" using that(1) by auto
    then obtain p rest where path: "path = p # rest" by (auto simp: neq_Nil_conv)
    have "in_grid m p" using that(1) unfolding path by (cases rest rule: list.exhaust) simp_all
    then have p: "p \<in> set (initial_positions P)" using that(3) by (simp add: S path)
    have "extends P p {} rest"
      using that(1,2) by (auto simp: extends_def mP path)
    from spec(2) [OF p this] ge [OF p] show ?thesis by (simp add: path)
  qed
  have ex: "1 \<le> n \<and> (\<exists>path. ascending_path m path \<and> distinct path \<and> at m (hd path) = ch
                          \<and> length path = n)"
    if "\<exists>p. in_grid m p \<and> at m p = ch"
  proof -
    from that obtain p0 where p0: "p0 \<in> set (initial_positions P)" by (auto simp: S)
    have "1 \<le> h p0" using spec(1) [OF p0] by auto
    then have n1: "1 \<le> n" using ge [OF p0] by simp
    have "n \<in> insert 0 (h ` set (initial_positions P))"
      unfolding n_def by (intro Max_in) simp_all
    then obtain p where p: "p \<in> set (initial_positions P)" "n = h p" using n1 by auto
    from spec(1) [OF p(1)] obtain rest where rest: "extends P p {} rest" "h p = 1 + length rest"
      by blast
    have "ascending_path m (p # rest)" "distinct (p # rest)"
      using rest(1) by (auto simp: extends_def mP)
    moreover have "at m (hd (p # rest)) = ch" using p(1) by (simp add: S)
    moreover have "length (p # rest) = n" using rest(2) p(2) by simp
    ultimately show ?thesis using n1 by blast
  qed
  have none: "n = 0" if "\<nexists>p. in_grid m p \<and> at m p = ch"
  proof -
    have "set (initial_positions P) = {}" using that by (simp add: S)
    then show ?thesis by (simp add: n_def)
  qed
  show ?thesis using val ub ex none by blast
qed

theorem longest_path_correct_witness:
  "rectangular scenario_grid
   \<and> find_longest_path scenario_grid (of_char CHR ''A'') = Inr 4
   \<and> (\<exists>p. in_grid scenario_grid p \<and> at scenario_grid p = of_char CHR ''A'')
   \<and> (\<exists>path. ascending_path scenario_grid path \<and> distinct path
        \<and> at scenario_grid (hd path) = of_char CHR ''A'' \<and> length path = 4)"
proof -
  have h1: "rectangular scenario_grid"
    by (simp add: rectangular_def scenario_grid_def)
  have v: "find_longest_path scenario_grid (of_char CHR ''A'') = Inr 4"
    unfolding find_longest_path_def scenario_problem
    by (simp add: longest_path_search_def recursive_dfs_unfold visit_child_def mp_actions_def
        mp_result_def cell_def getitem_def scenario_grid_def)
  have s: "in_grid scenario_grid (0, 0) \<and> at scenario_grid (0, 0) = of_char CHR ''A''"
    by (simp add: in_grid_def at_def scenario_grid_def)
  then have e: "\<exists>p. in_grid scenario_grid p \<and> at scenario_grid p = of_char CHR ''A''"
    by blast
  from longest_path_correct [OF h1, of "of_char CHR ''A''"] v e
  have "\<exists>path. ascending_path scenario_grid path \<and> distinct path
        \<and> at scenario_grid (hd path) = of_char CHR ''A'' \<and> length path = 4"
    by auto
  then show ?thesis using h1 v e by blast
qed

section \<open>Word search: the loop collects the traceable dictionary words\<close>

lemma word_of_grid:
  "rectangular b \<Longrightarrow> \<forall>p \<in> set path. in_grid b p \<Longrightarrow> word_of b path = Inr (map (at b) path)"
  by (induction path) (simp_all add: cell_in)

lemma directions_iff:
  "d \<in> set directions \<longleftrightarrow> fst d \<in> {-1, 0, 1} \<and> snd d \<in> {-1, 0, 1} \<and> d \<noteq> (0, 0)"
  by (cases d) (auto simp: directions_def)

lemma ws_children:
  assumes wf: "ws_well_formed P" and st: "on_board P (x, y, path)"
  shows "set (map (ws_result (x, y, path)) (ws_actions P (x, y, path))) =
     {(fst q, snd q, path @ [q]) | q. in_grid (board P) q \<and> adjacent8 (last path) q \<and> q \<notin> set path}"
proof -
  have l: "last path = (x, y)" using st by (simp add: on_board_def)
  have valid: "is_valid_move nx ny (ws_rows P) (ws_cols P) path \<longleftrightarrow>
      in_grid (board P) (nx, ny) \<and> (nx, ny) \<notin> set path" for nx ny
    using wf by (auto simp: is_valid_move_def ws_well_formed_def in_grid_def)
  have acts: "set (ws_actions P (x, y, path)) =
      {q. in_grid (board P) q \<and> adjacent8 (x, y) q \<and> q \<notin> set path}" (is "?A = ?B")
  proof (intro set_eqI iffI)
    fix q assume "q \<in> ?A"
    then obtain d where d: "d \<in> set directions" "q = (x + fst d, y + snd d)"
      "in_grid (board P) q" "q \<notin> set path"
      by (auto simp: ws_actions_def valid)
    have "adjacent8 (x, y) q"
      using d(1) unfolding directions_iff d(2) adjacent8_def by (auto simp: prod_eq_iff)
    then show "q \<in> ?B" using d(3,4) by simp
  next
    fix q assume "q \<in> ?B"
    then have q: "in_grid (board P) q" "adjacent8 (x, y) q" "q \<notin> set path" by simp_all
    let ?d = "(fst q - x, snd q - y)"
    have "?d \<in> set directions"
      using q(2) unfolding directions_iff adjacent8_def by (auto simp: prod_eq_iff)
    moreover have "q = (x + fst ?d, y + snd ?d)" by simp
    ultimately have "\<exists>d \<in> set directions. q = (x + fst d, y + snd d)" by blast
    then show "q \<in> ?A"
      using q(1,3) by (auto simp: ws_actions_def valid image_iff split_beta)
  qed
  have "set (map (ws_result (x, y, path)) (ws_actions P (x, y, path))) =
      (\<lambda>q. (fst q, snd q, path @ [q])) ` set (ws_actions P (x, y, path))"
    by (auto simp: ws_result_def split_beta)
  also have "\<dots> = {(fst q, snd q, path @ [q]) | q.
      in_grid (board P) q \<and> adjacent8 (last path) q \<and> q \<notin> set path}"
    unfolding acts l by blast
  finally show ?thesis .
qed

lemma on_board_child:
  "on_board P (x, y, path) \<Longrightarrow> in_grid (board P) q \<Longrightarrow> q \<notin> set path
   \<Longrightarrow> on_board P (fst q, snd q, path @ [q])"
  by (simp add: on_board_def)

lemma finite_grid: "finite {q. in_grid b q}"
proof -
  have "{q. in_grid b q} \<subseteq> {0..<int (length b)} \<times> {0..<int (length (hd b))}"
    by (auto simp: in_grid_def)
  then show ?thesis by (rule finite_subset) simp
qed

lemma on_board_length:
  assumes "on_board P (x, y, path)"
  shows "length path \<le> card {q. in_grid (board P) q}"
proof -
  have "set path \<subseteq> {q. in_grid (board P) q}" "distinct path"
    using assms by (auto simp: on_board_def)
  then have "card (set path) \<le> card {q. in_grid (board P) q}"
    by (intro card_mono finite_grid)
  then show ?thesis using \<open>distinct path\<close> by (simp add: distinct_card)
qed

lemma ws_loop_list:
  assumes "\<And>c stack found. c \<in> set cs \<Longrightarrow>
     ws_loop P (stack @ [c], found) = ws_loop P (stack, found \<union> F c)"
  shows "ws_loop P (stack @ cs, found) = ws_loop P (stack, found \<union> (\<Union>c \<in> set cs. F c))"
  using assms
proof (induction cs arbitrary: found rule: rev_induct)
  case Nil
  then show ?case by simp
next
  case (snoc c cs)
  have "ws_loop P (stack @ cs @ [c], found) = ws_loop P ((stack @ cs) @ [c], found)" by simp
  also have "\<dots> = ws_loop P (stack @ cs, found \<union> F c)"
    by (rule snoc.prems) simp
  also have "\<dots> = ws_loop P (stack, (found \<union> F c) \<union> (\<Union>c \<in> set cs. F c))"
    by (rule snoc.IH) (simp add: snoc.prems)
  also have "(found \<union> F c) \<union> (\<Union>c \<in> set cs. F c) = found \<union> (\<Union>c \<in> set (cs @ [c]). F c)"
    by auto
  finally show ?case .
qed

lemma finds_iff:
  "finds P path w \<longleftrightarrow>
     (w = map (at (board P)) path \<and> map (at (board P)) path \<in> dictionary P) \<or>
     (map (at (board P)) path \<in> prefixes P \<and>
      (\<exists>q. in_grid (board P) q \<and> adjacent8 (last path) q \<and> q \<notin> set path
           \<and> finds P (path @ [q]) w))"
  by (subst finds.simps) auto

lemma ws_step_on_board:
  assumes wf: "ws_well_formed P" and st: "on_board P (x, y, path)"
  shows "ws_step P (stack @ [(x, y, path)], found) =
     Inr (if map (at (board P)) path \<in> prefixes P
          then stack @ map (ws_result (x, y, path)) (ws_actions P (x, y, path))
          else stack,
          if map (at (board P)) path \<in> dictionary P
          then insert (map (at (board P)) path) found else found)"
proof -
  have "word_of (board P) path = Inr (map (at (board P)) path)"
    using wf st by (intro word_of_grid) (simp_all add: ws_well_formed_def on_board_def)
  then show ?thesis by (simp add: ws_step_def Let_def)
qed

lemma ws_loop_state:
  assumes wf: "ws_well_formed P"
  shows "on_board P st \<Longrightarrow>
     ws_loop P (stack @ [st], found) = ws_loop P (stack, found \<union> {w. finds P (snd (snd st)) w})"
proof (induction "card {q. in_grid (board P) q} - length (snd (snd st))"
    arbitrary: st stack found rule: less_induct)
  case less
  obtain x y path where st: "st = (x, y, path)" by (cases st)
  have ob: "on_board P (x, y, path)" using less.prems st by simp
  let ?word = "map (at (board P)) path"
  let ?cs = "map (ws_result (x, y, path)) (ws_actions P (x, y, path))"
  let ?F = "\<lambda>c. {w. finds P (snd (snd c)) w}"
  let ?found = "if ?word \<in> dictionary P then insert ?word found else found"
  have child: "ws_loop P (stack' @ [c], found') = ws_loop P (stack', found' \<union> ?F c)"
    if "c \<in> set ?cs" for c stack' found'
  proof -
    from that obtain q where q: "c = (fst q, snd q, path @ [q])" "in_grid (board P) q" "q \<notin> set path"
      unfolding ws_children [OF wf ob] by blast
    have obc: "on_board P c" unfolding q(1) using ob q(2,3) by (rule on_board_child)
    then have "length (path @ [q]) \<le> card {q. in_grid (board P) q}"
      unfolding q(1) by (rule on_board_length)
    then have "card {q. in_grid (board P) q} - length (snd (snd c))
        < card {q. in_grid (board P) q} - length (snd (snd st))"
      by (simp add: q(1) st)
    from less.hyps [OF this obc] show ?thesis .
  qed
  have step: "ws_loop P (stack @ [st], found) =
      ws_loop P (if ?word \<in> prefixes P then stack @ ?cs else stack, ?found)"
    by (subst ws_loop.simps) (simp add: st ws_step_on_board [OF wf ob])
  have F: "{w. finds P path w} =
      (if ?word \<in> dictionary P then {?word} else {}) \<union>
      (if ?word \<in> prefixes P then (\<Union>c \<in> set ?cs. ?F c) else {})"
  proof -
    have "(\<Union>c \<in> set ?cs. ?F c) =
        {w. \<exists>q. in_grid (board P) q \<and> adjacent8 (last path) q \<and> q \<notin> set path
              \<and> finds P (path @ [q]) w}"
      unfolding ws_children [OF wf ob] by (auto; blast)
    then show ?thesis
      by (auto simp: finds_iff [of P path])
  qed
  show ?case
  proof (cases "?word \<in> prefixes P")
    case True
    have "ws_loop P (stack @ [st], found) = ws_loop P (stack @ ?cs, ?found)"
      using step True by simp
    also have "\<dots> = ws_loop P (stack, ?found \<union> (\<Union>c \<in> set ?cs. ?F c))"
      by (rule ws_loop_list) (rule child)
    also have "?found \<union> (\<Union>c \<in> set ?cs. ?F c) = found \<union> {w. finds P path w}"
      unfolding F using True by auto
    finally show ?thesis by (simp add: st)
  next
    case False
    have "ws_loop P (stack @ [st], found) = ws_loop P (stack, ?found)"
      using step False by simp
    also have "?found = found \<union> {w. finds P path w}"
      unfolding F using False by auto
    finally show ?thesis by (simp add: st)
  qed
qed

lemma find_words_from_value:
  assumes "ws_well_formed P" "in_grid (board P) (x, y)"
  shows "find_words_from P x y = Some (Inr {w. finds P [(x, y)] w})"
proof -
  have "on_board P (x, y, [(x, y)])" using assms(2) by (simp add: on_board_def)
  from ws_loop_state [OF assms(1) this, of "[]" "{}"]
  have "find_words_from P x y = ws_loop P ([], {w. finds P [(x, y)] w})"
    by (simp add: find_words_from_def)
  then show ?thesis by (subst (asm) ws_loop.simps) simp
qed

lemma fold_insert_image: "fold (\<lambda>x acc. insert (f x) acc) xs A = A \<union> f ` set xs"
  by (induction xs arbitrary: A) auto

lemma fold_union_image: "fold (\<lambda>x acc. acc \<union> g x) xs A = A \<union> (\<Union>x \<in> set xs. g x)"
  by (induction xs arbitrary: A) auto

lemma build_prefix_set_eq:
  "build_prefix_set words = {take (Suc i) w | w i. w \<in> set words \<and> i < length w}"
proof -
  have "build_prefix_set words =
      fold (\<lambda>word acc. acc \<union> (\<lambda>i. take (i + 1) word) ` set [0..<length word]) words {}"
    unfolding build_prefix_set_def fold_insert_image ..
  also have "\<dots> = (\<Union>w \<in> set words. (\<lambda>i. take (i + 1) w) ` set [0..<length w])"
    unfolding fold_union_image by simp
  also have "\<dots> = {take (Suc i) w | w i. w \<in> set words \<and> i < length w}"
    by (auto; blast)
  finally show ?thesis .
qed

lemma take_in_prefixes:
  assumes "w \<in> set words" "0 < n" "n \<le> length w"
  shows "take n w \<in> build_prefix_set words"
proof -
  obtain i where n: "n = Suc i" using assms(2) by (cases n) auto
  have "i < length w" using assms(3) n by simp
  then show ?thesis
    unfolding build_prefix_set_eq n using assms(1) by blast
qed

lemma ws_init_rectangular:
  assumes "rectangular b"
  shows "MatrixWordSearchProblem_init b words =
     Inr \<lparr>board = b, dictionary = set words, ws_rows = int (length b),
          ws_cols = int (length (hd b)), prefixes = build_prefix_set words\<rparr>"
proof -
  have "b \<noteq> []" using assms by (simp add: rectangular_def)
  then show ?thesis
    by (simp add: MatrixWordSearchProblem_init_def getitem_row0 [OF assms])
qed

lemma fold_find_words:
  assumes "\<And>p. p \<in> set ps \<Longrightarrow> find_words_from P (fst p) (snd p) = Some (Inr (G p))"
  shows "fold (\<lambda>(x, y) acc.
             case acc of
               None \<Rightarrow> None
             | Some (Inl e) \<Rightarrow> Some (Inl e)
             | Some (Inr found_words) \<Rightarrow>
                 (case find_words_from P x y of
                    None \<Rightarrow> None
                  | Some (Inl e) \<Rightarrow> Some (Inl e)
                  | Some (Inr ws) \<Rightarrow> Some (Inr (found_words \<union> ws))))
       ps (Some (Inr A)) = Some (Inr (A \<union> (\<Union>p \<in> set ps. G p)))"
  using assms
proof (induction ps arbitrary: A)
  case Nil
  then show ?case by simp
next
  case (Cons p ps)
  have "find_words_from P (fst p) (snd p) = Some (Inr (G p))"
    by (rule Cons.prems) simp
  moreover have "A \<union> G p \<union> (\<Union>p \<in> set ps. G p) = A \<union> (\<Union>q \<in> set (p # ps). G q)"
    by auto
  ultimately show ?case
    using Cons.IH [of "A \<union> G p"] Cons.prems by (simp add: split_beta)
qed

lemma find_all_words_value:
  assumes wf: "ws_well_formed P"
  shows "find_all_words P = Some (Inr {w. \<exists>p. in_grid (board P) p \<and> finds P [p] w})"
proof -
  let ?ps = "List.product (py_range (ws_rows P)) (py_range (ws_cols P))"
  have ps: "set ?ps = {p. in_grid (board P) p}"
    using wf by (auto simp: set_py_range ws_well_formed_def in_grid_def)
  have "find_words_from P (fst p) (snd p) = Some (Inr {w. finds P [p] w})" if "p \<in> set ?ps" for p
    using find_words_from_value [OF wf, of "fst p" "snd p"] that ps by simp
  from fold_find_words [of ?ps P "\<lambda>p. {w. finds P [p] w}" "{}", OF this]
  have "find_all_words P = Some (Inr ({} \<union> (\<Union>p \<in> set ?ps. {w. finds P [p] w})))"
    unfolding find_all_words_def .
  moreover have "{} \<union> (\<Union>p \<in> set ?ps. {w. finds P [p] w}) =
      {w. \<exists>p. in_grid (board P) p \<and> finds P [p] w}"
    unfolding ps by blast
  ultimately show ?thesis by simp
qed

lemma grid_path_snoc:
  "grid_path b path \<Longrightarrow> in_grid b q \<Longrightarrow> adjacent8 (last path) q \<Longrightarrow> grid_path b (path @ [q])"
  by (induction b path rule: grid_path.induct) auto

lemma grid_path_in_grid: "grid_path b path \<Longrightarrow> p \<in> set path \<Longrightarrow> in_grid b p"
  by (induction b path rule: grid_path.induct) auto

lemma grid_path_adjacent:
  "grid_path b (pre @ q # suf) \<Longrightarrow> pre \<noteq> [] \<Longrightarrow> adjacent8 (last pre) q"
proof (induction pre)
  case Nil
  then show ?case by simp
next
  case (Cons p pre)
  then show ?case by (cases pre) auto
qed

lemma finds_sound:
  "finds P path0 w \<Longrightarrow> grid_path (board P) path0 \<Longrightarrow> distinct path0 \<Longrightarrow>
   w \<in> dictionary P \<and> traceable (board P) w"
proof (induction rule: finds.induct)
  case (here path)
  then show ?case unfolding traceable_def by blast
next
  case (deeper path q w)
  have "grid_path (board P) (path @ [q])"
    using deeper.prems(1) deeper.hyps(2,3) by (rule grid_path_snoc)
  moreover have "distinct (path @ [q])"
    using deeper.prems(2) deeper.hyps(4) by simp
  ultimately show ?case by (rule deeper.IH)
qed

lemma finds_complete:
  assumes w: "w \<in> dictionary P"
    and pre: "\<And>n. 0 < n \<Longrightarrow> n \<le> length w \<Longrightarrow> take n w \<in> prefixes P"
  shows "grid_path (board P) (pre @ suf) \<Longrightarrow> distinct (pre @ suf) \<Longrightarrow> pre \<noteq> []
     \<Longrightarrow> map (at (board P)) (pre @ suf) = w \<Longrightarrow> finds P pre w"
proof (induction suf arbitrary: pre)
  case Nil
  then show ?case using w finds.here [of P pre] by simp
next
  case (Cons q suf)
  have "take (length pre) w = map (at (board P)) pre"
    using Cons.prems(4) by auto
  moreover have "0 < length pre" "length pre \<le> length w"
    using Cons.prems(3,4) by auto
  ultimately have a: "map (at (board P)) pre \<in> prefixes P"
    using pre [of "length pre"] by simp
  have b: "in_grid (board P) q"
    using Cons.prems(1) by (rule grid_path_in_grid) simp
  have c: "adjacent8 (last pre) q"
    using Cons.prems(1,3) by (rule grid_path_adjacent)
  have d: "q \<notin> set pre" using Cons.prems(2) by auto
  have "finds P (pre @ [q]) w"
    using Cons.prems by (intro Cons.IH) simp_all
  with a b c d show ?case by (rule finds.deeper)
qed

lemma small_board_search:
  "word_search small_board [''cat'', ''xy''] = Some (Inr {''cat''})"
  by (simp add: word_search_def MatrixWordSearchProblem_init_def getitem_def
      build_prefix_set_def find_all_words_def find_words_from_def py_range_def upto.simps
      ws_loop.simps ws_step_def ws_actions_def ws_result_def directions_def is_valid_move_def
      cell_def small_board_def Let_def insert_commute)

section \<open>Claim C5: the word search is sound and complete\<close>

text \<open>
  C5: for every rectangular board of letters (and for the board with no row) and every
  dictionary, the word search returns exactly the set of the dictionary words that are the
  letters along a path of the board whose cells are distinct and whose consecutive cells
  are neighbours in one of the eight directions.
\<close>

theorem word_search_exact:
  assumes "b = [] \<or> rectangular b"
  shows "word_search b words = Some (Inr {w \<in> set words. traceable b w})"
proof (cases "b = []")
  case True
  have "\<not> traceable [] w" for w :: "'a list"
  proof
    assume "traceable [] w"
    then obtain path :: "(int \<times> int) list" where "grid_path ([] :: 'a list list) path"
      unfolding traceable_def by blast
    then show False
      by (induction "[] :: 'a list list" path rule: grid_path.induct) (auto simp: in_grid_def)
  qed
  then show ?thesis
    using True
    by (simp add: word_search_def MatrixWordSearchProblem_init_def find_all_words_def py_range_def)
next
  case False
  then have rect: "rectangular b" using assms by simp
  define P where "P = \<lparr>board = b, dictionary = set words, ws_rows = int (length b),
          ws_cols = int (length (hd b)), prefixes = build_prefix_set words\<rparr>"
  have wf: "ws_well_formed P" using rect by (simp add: ws_well_formed_def P_def)
  have bP: "board P = b" "dictionary P = set words" "prefixes P = build_prefix_set words"
    by (simp_all add: P_def)
  have val: "word_search b words = Some (Inr {w. \<exists>p. in_grid b p \<and> finds P [p] w})"
    using find_all_words_value [OF wf]
    by (simp add: word_search_def ws_init_rectangular [OF rect] P_def [symmetric] bP)
  have "(\<exists>p. in_grid b p \<and> finds P [p] w) \<longleftrightarrow> w \<in> set words \<and> traceable b w" for w
  proof
    assume "\<exists>p. in_grid b p \<and> finds P [p] w"
    then obtain p where p: "in_grid b p" "finds P [p] w" by blast
    from finds_sound [OF p(2)] p(1) show "w \<in> set words \<and> traceable b w"
      by (simp add: bP)
  next
    assume a: "w \<in> set words \<and> traceable b w"
    then obtain path where path: "grid_path b path" "distinct path" "map (at b) path = w"
      unfolding traceable_def by blast
    have "path \<noteq> []" using path(1) by auto
    then obtain p suf where ps: "path = [p] @ suf" by (cases path) auto
    have "finds P [p] w"
    proof (rule finds_complete)
      show "w \<in> dictionary P" using a by (simp add: bP)
      show "take n w \<in> prefixes P" if "0 < n" "n \<le> length w" for n
        unfolding bP using a that by (intro take_in_prefixes) simp_all
      show "grid_path (board P) ([p] @ suf)" "distinct ([p] @ suf)" "[p] \<noteq> []"
        "map (at (board P)) ([p] @ suf) = w"
        using path unfolding ps bP by simp_all
    qed
    moreover have "in_grid b p"
      using path(1) unfolding ps by (rule grid_path_in_grid) simp
    ultimately show "\<exists>p. in_grid b p \<and> finds P [p] w" by blast
  qed
  then show ?thesis unfolding val by simp
qed

theorem word_search_exact_witness:
  "rectangular small_board
   \<and> word_search small_board [''cat'', ''xy''] = Some (Inr {''cat''})
   \<and> {w \<in> set [''cat'', ''xy'']. traceable small_board w} = {''cat''}"
proof -
  have r: "rectangular small_board"
    by (simp add: rectangular_def small_board_def)
  then have h: "small_board = [] \<or> rectangular small_board" ..
  have v: "word_search small_board [''cat'', ''xy''] = Some (Inr {''cat''})"
    by (rule small_board_search)
  show ?thesis
    using word_search_exact [OF h, of "[''cat'', ''xy'']"] r v by simp
qed

end
